theory Spec2Isabelle
  imports Main "HOL-Library.Word"
begin

unbundle bit_operations_syntax

section \<open>The retained region\<close>

text \<open>
  The queue lives in a caller-supplied byte region \<open>retainedBuffer\<close> of
  \<open>retainedBufferSize\<close> bytes.  The region is modelled as the list of its bytes;
  every pointer into it (\<open>nextFree\<close>, \<open>start\<close>, \<open>next\<close>, \<open>end\<close>) is the
  offset from \<open>retainedBuffer\<close>.  An access that leaves the region is undefined
  behaviour in the source and a \<open>fault\<close> in the model.
\<close>

type_synonym byte = "8 word"

datatype fault =
    HeaderOutsideRegion   \<comment> \<open>the region is shorter than \<open>RetainedBufHeader\<close>\<close>
  | ScanPastRegion        \<comment> \<open>\<open>skipEvent\<close> returned a pointer past \<open>end\<close> and it is used\<close>
  | CursorBelowRegion     \<comment> \<open>\<open>nextFree -= len\<close> leaves the region downwards\<close>
  | WritePastRegion       \<comment> \<open>a record write (\<open>port\<close>, \<open>strcpy\<close>) leaves the region\<close>

definition RETAINED_BUF_HEADER_MAGIC :: "32 word" where
  "RETAINED_BUF_HEADER_MAGIC = 0xd19cab61"

text \<open>\<open>sizeof(RetainedBufHeader)\<close>: a \<open>uint32_t\<close> and two \<open>uint16_t\<close>.\<close>

definition sizeof_RetainedBufHeader :: nat where
  "sizeof_RetainedBufHeader = 8"

text \<open>\<open>sizeof(EventData)\<close>: the single \<open>uint16_t port\<close>.\<close>

definition sizeof_EventData :: nat where
  "sizeof_EventData = 2"

subsection \<open>Integers stored in the region\<close>

text \<open>
  The header and the port are read and written through struct pointers cast onto the
  region; the target is little-endian, so the low byte comes first.
\<close>

definition rd16 :: "byte list \<Rightarrow> nat \<Rightarrow> 16 word" where
  "rd16 m off = word_cat (m ! (off + 1)) (m ! off)"

definition wr16 :: "byte list \<Rightarrow> nat \<Rightarrow> 16 word \<Rightarrow> byte list" where
  "wr16 m off v = (m[off := ucast v])[off + 1 := ucast (drop_bit 8 v)]"

definition rd32 :: "byte list \<Rightarrow> nat \<Rightarrow> 32 word" where
  "rd32 m off = word_cat (rd16 m (off + 2)) (rd16 m off)"

definition wr32 :: "byte list \<Rightarrow> nat \<Rightarrow> 32 word \<Rightarrow> byte list" where
  "wr32 m off v = wr16 (wr16 m off (ucast v)) (off + 2) (ucast (drop_bit 16 v))"

text \<open>The fields of \<open>RetainedBufHeader\<close>, at offsets 0, 4 and 6.\<close>

definition hdr_magic :: "byte list \<Rightarrow> 32 word" where
  "hdr_magic m = rd32 m 0"

definition hdr_size :: "byte list \<Rightarrow> 16 word" where
  "hdr_size m = rd16 m 4"

definition hdr_numEvents :: "byte list \<Rightarrow> 16 word" where
  "hdr_numEvents m = rd16 m 6"

definition set_magic :: "byte list \<Rightarrow> 32 word \<Rightarrow> byte list" where
  "set_magic m v = wr32 m 0 v"

definition set_size :: "byte list \<Rightarrow> 16 word \<Rightarrow> byte list" where
  "set_size m v = wr16 m 4 v"

definition set_numEvents :: "byte list \<Rightarrow> 16 word \<Rightarrow> byte list" where
  "set_numEvents m v = wr16 m 6 v"

subsection \<open>C strings\<close>

text \<open>
  A \<open>const char *\<close> argument denotes the characters before its first NUL.
\<close>

definition c_str :: "string \<Rightarrow> string" where
  "c_str s = takeWhile (\<lambda>c. c \<noteq> CHR 0x00) s"

definition strlen :: "string \<Rightarrow> nat" where
  "strlen s = length (c_str s)"

definition byte_of_char :: "char \<Rightarrow> byte" where
  "byte_of_char c = of_nat (of_char c)"

definition char_of_byte :: "byte \<Rightarrow> char" where
  "char_of_byte b = char_of (unat b)"

text \<open>
  \<open>strlen\<close> on a pointer into the region.  \<open>None\<close>: no NUL before the end of the
  region, so the scan leaves the region and whatever it returns points past \<open>end\<close>.
\<close>

definition strlen_at :: "byte list \<Rightarrow> nat \<Rightarrow> nat option" where
  "strlen_at m p =
     (let l = length (takeWhile (\<lambda>b. b \<noteq> 0) (drop p m))
      in if p + l < length m then Some l else None)"

text \<open>The string read at a pointer into the region.\<close>

definition string_at :: "byte list \<Rightarrow> nat \<Rightarrow> string option" where
  "string_at m p =
     (case strlen_at m p of
        None \<Rightarrow> None
      | Some l \<Rightarrow> Some (map char_of_byte (take l (drop p m))))"

text \<open>\<open>strcpy(cp, s)\<close> with \<open>cp\<close> at offset \<open>p\<close>: the characters and the NUL.\<close>

definition strcpy_at :: "byte list \<Rightarrow> nat \<Rightarrow> string \<Rightarrow> fault + byte list" where
  "strcpy_at m p s =
     (let bs = map byte_of_char (c_str s) @ [0]
      in if p + length bs \<le> length m
         then Inr (take p m @ bs @ drop (p + length bs) m)
         else Inl WritePastRegion)"

section \<open>The queue object\<close>

datatype handler = StartState | CheckQueueState | WaitRetryState

record pubq =
  mem :: "byte list"                \<comment> \<open>the bytes at \<open>retainedBuffer\<close>\<close>
  retainedBufferSize :: "16 word"
  nextFree :: nat                   \<comment> \<open>offset of the pointer \<open>nextFree\<close>\<close>
  isSending :: bool
  lastPublish :: "32 word"
  failureRetryMs :: "32 word"
  stateHandler :: handler

subsection \<open>skipEvent\<close>

text \<open>
  Steps over the \<open>EventData\<close> header and two C strings, then aligns the offset to 4.
  \<open>None\<close> when a string has no terminator inside the region.
\<close>

definition skipEvent :: "byte list \<Rightarrow> nat \<Rightarrow> nat option" where
  "skipEvent m start =
     (let s1 = start + sizeof_EventData in
      case strlen_at m s1 of
        None \<Rightarrow> None
      | Some l1 \<Rightarrow>
         (let s2 = s1 + l1 + 1 in
          case strlen_at m s2 of
            None \<Rightarrow> None
          | Some l2 \<Rightarrow>
             (let s3 = s2 + l2 + 1
              in Some (if s3 mod 4 \<noteq> 0 then s3 + (4 - s3 mod 4) else s3))))"

subsection \<open>Constructor\<close>

text \<open>
  The loop of the constructor: \<open>k\<close> more events to skip from offset \<open>p\<close>.
  \<open>None\<close> is \<open>initBuffer = true\<close>: some skip ended past \<open>end\<close>.
\<close>

fun walkEvents :: "byte list \<Rightarrow> nat \<Rightarrow> nat \<Rightarrow> nat \<Rightarrow> nat option" where
  "walkEvents m e 0 p = Some p"
| "walkEvents m e (Suc k) p =
     (case skipEvent m p of
        None \<Rightarrow> None
      | Some q \<Rightarrow> if q > e then None else walkEvents m e k q)"

text \<open>
  \<open>members\<close> carries the data members whose initialisers are in the class
  declaration; the constructor body sets the region, its size and \<open>nextFree\<close>.
\<close>

definition construct :: "byte list \<Rightarrow> 16 word \<Rightarrow> pubq \<Rightarrow> fault + pubq" where
  "construct buf sz members =
     (if unat sz < sizeof_RetainedBufHeader then Inl HeaderOutsideRegion
      else
        (case (if hdr_magic buf = RETAINED_BUF_HEADER_MAGIC \<and> hdr_size buf = sz
               then walkEvents buf (unat sz) (unat (hdr_numEvents buf)) sizeof_RetainedBufHeader
               else None) of
           Some nf \<Rightarrow>
             Inr (members\<lparr>mem := buf, retainedBufferSize := sz, nextFree := nf\<rparr>)
         | None \<Rightarrow>
             Inr (members\<lparr>mem := set_numEvents
                                    (set_size (set_magic buf RETAINED_BUF_HEADER_MAGIC) sz) 0,
                          retainedBufferSize := sz,
                          nextFree := sizeof_RetainedBufHeader\<rparr>)))"

subsection \<open>discardOldEvent\<close>

text \<open>\<open>memmove(start, next, after)\<close> with \<open>after = end - next\<close>.\<close>

definition memmove_down :: "byte list \<Rightarrow> nat \<Rightarrow> nat \<Rightarrow> byte list" where
  "memmove_down m start next =
     take start m @ drop next m @ drop (start + (length m - next)) m"

definition discardOldEvent :: "bool \<Rightarrow> pubq \<Rightarrow> fault + (bool \<times> pubq)" where
  "discardOldEvent secondEvent s =
     (let m = mem s;
          e = unat (retainedBufferSize s);
          n = hdr_numEvents m
      in if (if secondEvent then n < 2 else n < 1) then Inr (False, s)
         else
           (case (if secondEvent then skipEvent m sizeof_RetainedBufHeader
                  else Some sizeof_RetainedBufHeader) of
              None \<Rightarrow> Inl ScanPastRegion
            | Some start \<Rightarrow>
               (case skipEvent m start of
                  None \<Rightarrow> Inl ScanPastRegion
                | Some next \<Rightarrow>
                    if next > e then Inl ScanPastRegion
                    else
                      (let len = next - start;
                           m1 = (if e - next > 0 then memmove_down m start next else m)
                       in if nextFree s < len then Inl CursorBelowRegion
                          else Inr (True,
                                 s\<lparr>mem := set_numEvents m1 (hdr_numEvents m1 - 1),
                                   nextFree := nextFree s - len\<rparr>)))))"

subsection \<open>publish\<close>

text \<open>
  The size computed from the three arguments, in \<open>size_t\<close> (32 bits on the target).
\<close>

definition eventSize :: "string \<Rightarrow> string \<Rightarrow> string \<Rightarrow> nat" where
  "eventSize hostName path body =
     (let size = (sizeof_EventData + strlen hostName + strlen path + strlen body + 3) mod 2 ^ 32
      in if size mod 4 \<noteq> 0 then (size + (4 - size mod 4)) mod 2 ^ 32 else size)"

text \<open>
  The record write of \<open>publish\<close>: the port at \<open>nextFree\<close>, then the two strings
  \<open>eventName\<close> and \<open>data\<close>.
\<close>

definition writeEvent :: "byte list \<Rightarrow> nat \<Rightarrow> 16 word \<Rightarrow> string \<Rightarrow> string \<Rightarrow> fault + byte list" where
  "writeEvent m p port eventName dat =
     (if p + sizeof_EventData > length m then Inl WritePastRegion
      else
        (case strcpy_at (wr16 m p port) (p + sizeof_EventData) eventName of
           Inl f \<Rightarrow> Inl f
         | Inr m1 \<Rightarrow> strcpy_at m1 (p + sizeof_EventData + strlen eventName + 1) dat))"

text \<open>
  \<open>publish\<close> names \<open>eventName\<close> and \<open>data\<close>, which are not among its parameters
  and are declared nowhere in the source file; they are parameters here (\<open>data\<close> may
  be \<open>NULL\<close>).  Every path through the body of \<open>while(true)\<close> returns, so the body
  runs once.
\<close>

definition publish ::
  "string \<Rightarrow> 16 word \<Rightarrow> string \<Rightarrow> string \<Rightarrow> string \<Rightarrow> string option \<Rightarrow> pubq
     \<Rightarrow> fault + (bool \<times> pubq)" where
  "publish hostName port path body eventName data s =
     (let dat = (case data of None \<Rightarrow> [] | Some d \<Rightarrow> d);
          size = eventSize hostName path body;
          e = unat (retainedBufferSize s)
      in if int size > (int e - int sizeof_RetainedBufHeader) mod 2 ^ 32 then Inr (False, s)
         else if (int e - int (nextFree s)) mod 2 ^ 32 \<ge> int size then
           (case writeEvent (mem s) (nextFree s) port eventName dat of
              Inl f \<Rightarrow> Inl f
            | Inr m1 \<Rightarrow>
                Inr (True, s\<lparr>mem := set_numEvents m1 (hdr_numEvents m1 + 1),
                             nextFree := nextFree s + size\<rparr>))
         else if hdr_numEvents (mem s) = 1 then Inr (False, s)
         else
           (case discardOldEvent (isSending s) s of
              Inl f \<Rightarrow> Inl f
            | Inr (r, s1) \<Rightarrow> Inr (False, s1)))"

subsection \<open>clearEvents\<close>

definition clearEvents :: "pubq \<Rightarrow> bool \<times> pubq" where
  "clearEvents s =
     (if \<not> isSending s then (True, s\<lparr>mem := set_numEvents (mem s) 0\<rparr>)
      else (False, s))"

subsection \<open>The drain state machine\<close>

text \<open>
  The record \<open>checkQueueState\<close> reads for the transport: the port at the start of the
  record area, the first string after it and the second string after that.
\<close>

definition oldestEvent :: "byte list \<Rightarrow> (16 word \<times> string \<times> string) option" where
  "oldestEvent m =
     (let p = sizeof_RetainedBufHeader + sizeof_EventData in
      case string_at m p of
        None \<Rightarrow> None
      | Some eventName \<Rightarrow>
         (case string_at m (p + length eventName + 1) of
            None \<Rightarrow> None
          | Some eventData \<Rightarrow> Some (rd16 m sizeof_RetainedBufHeader, eventName, eventData)))"

definition startState :: "pubq \<Rightarrow> pubq" where
  "startState s = s\<lparr>stateHandler := CheckQueueState\<rparr>"

text \<open>
  One call of \<open>checkQueueState\<close>.  \<open>ready\<close> is \<open>WiFi.ready()\<close>, \<open>now\<close> the first
  \<open>millis()\<close>, \<open>status\<close> the \<open>response.status\<close> left by \<open>http.post\<close> and
  \<open>now'\<close> the \<open>millis()\<close> after the attempt.  The transport calls themselves
  (\<open>Particle.publish\<close>, \<open>http.post\<close>) are outside the object and leave it as it is.
\<close>

definition checkQueueState :: "bool \<Rightarrow> 32 word \<Rightarrow> int \<Rightarrow> 32 word \<Rightarrow> pubq \<Rightarrow> fault + pubq" where
  "checkQueueState ready now status now' s =
     (let haveEvent = (hdr_numEvents (mem s) > 0)
      in if haveEvent \<and> ready \<and> now - lastPublish s \<ge> 1010 then
           (let s1 = s\<lparr>isSending := True\<rparr> in
            case (if status \<ge> 200 \<and> status < 300
                  then (case discardOldEvent False s1 of
                          Inl f \<Rightarrow> Inl f
                        | Inr (r, s2) \<Rightarrow> Inr s2)
                  else Inr (s1\<lparr>stateHandler := WaitRetryState\<rparr>)) of
              Inl f \<Rightarrow> Inl f
            | Inr s3 \<Rightarrow> Inr (s3\<lparr>isSending := False, lastPublish := now'\<rparr>))
         else Inr s)"

definition waitRetryState :: "32 word \<Rightarrow> pubq \<Rightarrow> pubq" where
  "waitRetryState now s =
     (if now - lastPublish s \<ge> failureRetryMs s then s\<lparr>stateHandler := CheckQueueState\<rparr>
      else s)"

text \<open>One pass of the loop in \<open>threadFunction\<close>: the current handler is called.\<close>

definition tick :: "bool \<Rightarrow> 32 word \<Rightarrow> int \<Rightarrow> 32 word \<Rightarrow> pubq \<Rightarrow> fault + pubq" where
  "tick ready now status now' s =
     (case stateHandler s of
        StartState \<Rightarrow> Inr (startState s)
      | CheckQueueState \<Rightarrow> checkQueueState ready now status now' s
      | WaitRetryState \<Rightarrow> Inr (waitRetryState now s))"


section \<open>Notions used to state the properties\<close>

text \<open>Rounding up to a multiple of 4, as \<open>publish\<close> and \<open>skipEvent\<close> both do inline.\<close>

definition align4 :: "nat \<Rightarrow> nat" where
  "align4 n = (if n mod 4 \<noteq> 0 then n + (4 - n mod 4) else n)"

text \<open>
  The record at a given offset, read the way \<open>checkQueueState\<close> reads the one at the
  start of the record area.
\<close>

definition eventAt :: "byte list \<Rightarrow> nat \<Rightarrow> (16 word \<times> string \<times> string) option" where
  "eventAt m p =
     (case string_at m (p + sizeof_EventData) of
        None \<Rightarrow> None
      | Some eventName \<Rightarrow>
         (case string_at m (p + sizeof_EventData + length eventName + 1) of
            None \<Rightarrow> None
          | Some eventData \<Rightarrow> Some (rd16 m p, eventName, eventData)))"

text \<open>The first \<open>k\<close> records found by walking with \<open>skipEvent\<close> from offset \<open>p\<close>.\<close>

fun eventsFrom :: "byte list \<Rightarrow> nat \<Rightarrow> nat \<Rightarrow> (16 word \<times> string \<times> string) list" where
  "eventsFrom m 0 p = []"
| "eventsFrom m (Suc k) p =
     (case (eventAt m p, skipEvent m p) of
        (Some ev, Some q) \<Rightarrow> ev # eventsFrom m k q
      | _ \<Rightarrow> [])"

text \<open>The queue's content: the \<open>numEvents\<close> records from the start of the record area.\<close>

definition queued :: "pubq \<Rightarrow> (16 word \<times> string \<times> string) list" where
  "queued s = eventsFrom (mem s) (unat (hdr_numEvents (mem s))) sizeof_RetainedBufHeader"

text \<open>
  The state invariant: the region has the recorded size and holds the header, the cursor
  is aligned and inside the region, and walking \<open>numEvents\<close> records from the start of
  the record area succeeds and ends at or before the cursor.
\<close>

definition queue_inv :: "pubq \<Rightarrow> bool" where
  "queue_inv s \<longleftrightarrow>
     length (mem s) = unat (retainedBufferSize s) \<and>
     sizeof_RetainedBufHeader \<le> length (mem s) \<and>
     nextFree s mod 4 = 0 \<and>
     nextFree s \<le> length (mem s) \<and>
     (case walkEvents (mem s) (length (mem s)) (unat (hdr_numEvents (mem s)))
             sizeof_RetainedBufHeader of
        None \<Rightarrow> False
      | Some w \<Rightarrow> w \<le> nextFree s)"

text \<open>The cursor is exactly where the walk over the stored records ends.\<close>

definition cursor_exact :: "pubq \<Rightarrow> bool" where
  "cursor_exact s \<longleftrightarrow>
     walkEvents (mem s) (length (mem s)) (unat (hdr_numEvents (mem s)))
       sizeof_RetainedBufHeader = Some (nextFree s)"

text \<open>The public operations, as calls.\<close>

datatype call =
    Publish string "16 word" string string string "string option"
  | ClearEvents
  | DiscardOldEvent bool

fun exec :: "call \<Rightarrow> pubq \<Rightarrow> fault + (bool \<times> pubq)" where
  "exec (Publish hostName port path body eventName data) s =
     publish hostName port path body eventName data s"
| "exec ClearEvents s = Inr (clearEvents s)"
| "exec (DiscardOldEvent secondEvent) s = discardOldEvent secondEvent s"

text \<open>
  The bytes \<open>publish\<close> writes (port, \<open>eventName\<close>, \<open>data\<close>, two terminators) are no
  more than the size it computes from \<open>hostName\<close>, \<open>path\<close> and \<open>body\<close>.
\<close>

fun recordFits :: "call \<Rightarrow> bool" where
  "recordFits (Publish hostName port path body eventName data) =
     (sizeof_EventData + strlen eventName + 1
        + strlen (case data of None \<Rightarrow> [] | Some d \<Rightarrow> d) + 1
      \<le> eventSize hostName path body)"
| "recordFits ClearEvents = True"
| "recordFits (DiscardOldEvent secondEvent) = True"

text \<open>
  The states the program can be in between two critical sections: the constructor's
  result, then any interleaving of public operations (a \<open>publish\<close> whose stored strings
  fit its size), passes of the drain loop, and the drain loop's writes to \<open>isSending\<close>
  around a send.
\<close>

inductive reachable :: "pubq \<Rightarrow> bool" where
  constructed: "length buf = unat sz \<Longrightarrow> construct buf sz members = Inr s \<Longrightarrow> reachable s"
| operation: "reachable s \<Longrightarrow> recordFits c \<Longrightarrow> exec c s = Inr (r, s') \<Longrightarrow> reachable s'"
| drain: "reachable s \<Longrightarrow> tick ready now status now' s = Inr s' \<Longrightarrow> reachable s'"
| sending: "reachable s \<Longrightarrow> reachable (s\<lparr>isSending := b\<rparr>)"

section \<open>Example states\<close>

text \<open>Values for the data members that the constructor body does not set.\<close>

definition members0 :: pubq where
  "members0 = \<lparr>mem = [], retainedBufferSize = 0, nextFree = 0, isSending = False,
     lastPublish = 0, failureRetryMs = 30000, stateHandler = StartState\<rparr>"

text \<open>An initialised 32-byte region with no records.\<close>

definition no_events :: "byte list" where
  "no_events = [0x61, 0xab, 0x9c, 0xd1, 32, 0, 0, 0,
                0, 0, 0, 0, 0, 0, 0, 0,
                0, 0, 0, 0, 0, 0, 0, 0,
                0, 0, 0, 0, 0, 0, 0, 0]"

definition demo0 :: pubq where
  "demo0 = members0\<lparr>mem := no_events, retainedBufferSize := 32, nextFree := 8\<rparr>"

text \<open>A 16-byte region holding the record (80, "a", "/x").\<close>

definition one_event :: "byte list" where
  "one_event = [0x61, 0xab, 0x9c, 0xd1, 16, 0, 1, 0,
                80, 0, 97, 0, 47, 120, 0, 0]"

definition demo1 :: pubq where
  "demo1 = members0\<lparr>mem := one_event, retainedBufferSize := 16, nextFree := 16\<rparr>"

text \<open>
  A 32-byte region holding the single record (80, "a", "/x"), with 16 bytes free after
  the cursor.
\<close>

definition one_event_free :: "byte list" where
  "one_event_free = [0x61, 0xab, 0x9c, 0xd1, 32, 0, 1, 0,
                     80, 0, 97, 0, 47, 120, 0, 0,
                     0, 0, 0, 0, 0, 0, 0, 0,
                     0, 0, 0, 0, 0, 0, 0, 0]"

definition demo1f :: pubq where
  "demo1f = members0\<lparr>mem := one_event_free, retainedBufferSize := 32, nextFree := 16\<rparr>"

text \<open>
  A 32-byte region holding the records (80, "a", "/x") and (81, "b", "/y"), with 8 bytes
  free after the cursor.
\<close>

definition two_events :: "byte list" where
  "two_events = [0x61, 0xab, 0x9c, 0xd1, 32, 0, 2, 0,
                 80, 0, 97, 0, 47, 120, 0, 0,
                 81, 0, 98, 0, 47, 121, 0, 0,
                 0, 0, 0, 0, 0, 0, 0, 0]"

definition demo2 :: pubq where
  "demo2 = members0\<lparr>mem := two_events, retainedBufferSize := 32, nextFree := 24\<rparr>"

text \<open>The same queue while a send is in flight, and while the drain loop checks it.\<close>

definition demo2s :: pubq where
  "demo2s = demo2\<lparr>isSending := True\<rparr>"

definition demo2c :: pubq where
  "demo2c = demo2\<lparr>stateHandler := CheckQueueState\<rparr>"

section \<open>Lemmas\<close>

subsection \<open>Integers in the region\<close>

lemma word_cat_bytes: "word_cat (ucast (drop_bit 8 v) :: 8 word) (ucast v :: 8 word) = (v :: 16 word)"
  by (rule bit_word_eqI) (auto simp: bit_simps)

lemma word_cat_halves: "word_cat (ucast (drop_bit 16 v) :: 16 word) (ucast v :: 16 word) = (v :: 32 word)"
  by (rule bit_word_eqI) (auto simp: bit_simps)

lemma length_wr16 [simp]: "length (wr16 m off v) = length m"
  by (simp add: wr16_def)

lemma nth_wr16_other: "i \<noteq> off \<Longrightarrow> i \<noteq> off + 1 \<Longrightarrow> wr16 m off v ! i = m ! i"
  by (simp add: wr16_def)

lemma rd16_wr16_same: "off + 1 < length m \<Longrightarrow> rd16 (wr16 m off v) off = v"
  by (simp add: rd16_def wr16_def word_cat_bytes)

lemma rd16_agree: "m' ! off = m ! off \<Longrightarrow> m' ! (off + 1) = m ! (off + 1) \<Longrightarrow> rd16 m' off = rd16 m off"
  by (simp add: rd16_def)

lemma rd16_wr16_other: "off' + 1 < off \<or> off + 1 < off' \<Longrightarrow> rd16 (wr16 m off v) off' = rd16 m off'"
  by (rule rd16_agree) (auto simp: nth_wr16_other)

lemma length_wr32 [simp]: "length (wr32 m off v) = length m"
  by (simp add: wr32_def)

lemma nth_wr32_other: "i < off \<or> off + 3 < i \<Longrightarrow> wr32 m off v ! i = m ! i"
  by (auto simp: wr32_def nth_wr16_other)

lemma rd32_wr32_same: "off + 3 < length m \<Longrightarrow> rd32 (wr32 m off v) off = v"
  by (simp add: rd32_def wr32_def rd16_wr16_same rd16_wr16_other word_cat_halves)

lemma rd32_agree: "\<forall>i. off \<le> i \<and> i < off + 4 \<longrightarrow> m' ! i = m ! i \<Longrightarrow> rd32 m' off = rd32 m off"
  by (simp add: rd32_def rd16_def)

subsection \<open>Strings in the region\<close>

lemma takeWhile_length_iff:
  "length (takeWhile P xs) = l \<and> l < length xs \<longleftrightarrow>
     l < length xs \<and> \<not> P (xs ! l) \<and> (\<forall>i<l. P (xs ! i))"
proof
  assume h: "length (takeWhile P xs) = l \<and> l < length xs"
  then have "\<not> P (xs ! l)"
    using nth_length_takeWhile [of P xs] by simp
  moreover have "\<forall>i<l. P (xs ! i)"
  proof (intro allI impI)
    fix i assume "i < l"
    then have "i < length (takeWhile P xs)" using h by simp
    then have "takeWhile P xs ! i \<in> set (takeWhile P xs)" and "takeWhile P xs ! i = xs ! i"
      by (rule nth_mem, rule takeWhile_nth)
    then show "P (xs ! i)" by (metis set_takeWhileD)
  qed
  ultimately show "l < length xs \<and> \<not> P (xs ! l) \<and> (\<forall>i<l. P (xs ! i))"
    using h by simp
next
  assume h: "l < length xs \<and> \<not> P (xs ! l) \<and> (\<forall>i<l. P (xs ! i))"
  have "l \<le> length (takeWhile P xs)"
    using h by (intro length_takeWhile_less_P_nth) auto
  moreover have "\<not> l < length (takeWhile P xs)"
  proof
    assume "l < length (takeWhile P xs)"
    then have "takeWhile P xs ! l \<in> set (takeWhile P xs)" and "takeWhile P xs ! l = xs ! l"
      by (rule nth_mem, rule takeWhile_nth)
    then have "P (xs ! l)" by (metis set_takeWhileD)
    then show False using h by simp
  qed
  ultimately show "length (takeWhile P xs) = l \<and> l < length xs"
    using h by simp
qed

lemma strlen_at_Some_iff:
  "strlen_at m p = Some l \<longleftrightarrow>
     p + l < length m \<and> m ! (p + l) = 0 \<and> (\<forall>i<l. m ! (p + i) \<noteq> 0)"
proof -
  have "strlen_at m p = Some l \<longleftrightarrow>
          length (takeWhile (\<lambda>b. b \<noteq> 0) (drop p m)) = l \<and> l < length (drop p m)"
    by (auto simp: strlen_at_def Let_def)
  also have "\<dots> \<longleftrightarrow> l < length (drop p m) \<and> \<not> (drop p m ! l \<noteq> 0) \<and> (\<forall>i<l. drop p m ! i \<noteq> 0)"
    by (rule takeWhile_length_iff)
  also have "\<dots> \<longleftrightarrow> p + l < length m \<and> m ! (p + l) = 0 \<and> (\<forall>i<l. m ! (p + i) \<noteq> 0)"
    by (auto simp: less_diff_conv add.commute)
  finally show ?thesis .
qed


subsection \<open>Alignment and skipEvent\<close>

lemma align4_props: "n \<le> align4 n \<and> align4 n mod 4 = 0 \<and> align4 n < n + 4"
  unfolding align4_def by presburger

lemma align4_mono: "a \<le> b \<Longrightarrow> align4 a \<le> align4 b"
  unfolding align4_def by presburger

lemma align4_shift: "d mod 4 = 0 \<Longrightarrow> align4 (a + d) = align4 a + d"
  unfolding align4_def by presburger

lemma align4_id: "n mod 4 = 0 \<Longrightarrow> align4 n = n"
  by (simp add: align4_def)

lemma skipEvent_Some_iff:
  "skipEvent m p = Some q \<longleftrightarrow>
     (\<exists>l1 l2. strlen_at m (p + 2) = Some l1 \<and> strlen_at m (p + 2 + l1 + 1) = Some l2 \<and>
        q = align4 (p + 2 + l1 + 1 + l2 + 1))"
  by (auto simp: skipEvent_def sizeof_EventData_def Let_def align4_def split: option.splits)

lemma skipEvent_bounds:
  assumes "skipEvent m p = Some q"
  shows "p + 4 \<le> q" and "q mod 4 = 0" and "q < length m + 4"
proof -
  obtain l1 l2 where l: "strlen_at m (p + 2) = Some l1" "strlen_at m (p + 2 + l1 + 1) = Some l2"
      "q = align4 (p + 2 + l1 + 1 + l2 + 1)"
    using assms unfolding skipEvent_Some_iff by blast
  have "p + 2 + l1 + 1 + l2 < length m" using l(2) unfolding strlen_at_Some_iff by simp
  then show "p + 4 \<le> q" "q mod 4 = 0" "q < length m + 4"
    using align4_props [of "p + 2 + l1 + 1 + l2 + 1"] l(3) by simp_all
qed

lemma strlen_at_shift:
  assumes "strlen_at m (p + d) = Some l" "length m' = length m"
    and "\<forall>i. p \<le> i \<and> i \<le> p + l \<longrightarrow> m' ! i = m ! (i + d)"
  shows "strlen_at m' p = Some l"
proof -
  have h: "p + d + l < length m" "m ! (p + d + l) = 0" "\<forall>i<l. m ! (p + d + i) \<noteq> 0"
    using assms(1) unfolding strlen_at_Some_iff by simp_all
  have sh: "m' ! (p + i) = m ! (p + d + i)" if "i \<le> l" for i
  proof -
    have "m' ! (p + i) = m ! (p + i + d)" using assms(3) that by simp
    moreover have "p + i + d = p + d + i" by simp
    ultimately show ?thesis by simp
  qed
  have "m' ! (p + l) = 0" using sh [of l] h(2) by simp
  moreover have "\<forall>i<l. m' ! (p + i) \<noteq> 0"
    using sh h(3) by simp
  moreover have "p + l < length m'" using h(1) assms(2) by simp
  ultimately show ?thesis
    unfolding strlen_at_Some_iff by simp
qed

lemma skipEvent_shift:
  assumes "skipEvent m (p + d) = Some q" "d mod 4 = 0" "length m' = length m"
    and "\<forall>i. p \<le> i \<and> i + d < q \<longrightarrow> m' ! i = m ! (i + d)"
  shows "skipEvent m' p = Some (q - d)"
proof -
  obtain l1 l2 where l: "strlen_at m (p + d + 2) = Some l1"
      "strlen_at m (p + d + 2 + l1 + 1) = Some l2"
      "q = align4 (p + d + 2 + l1 + 1 + l2 + 1)"
    using assms(1) unfolding skipEvent_Some_iff by blast
  have q: "p + d + 2 + l1 + 1 + l2 + 1 \<le> q" using l(3) align4_props by simp
  have e1: "p + d + 2 = (p + 2) + d" by simp
  have e2: "p + d + 2 + l1 + 1 = (p + 2 + l1 + 1) + d" by simp
  have e3: "p + d + 2 + l1 + 1 + l2 + 1 = (p + 2 + l1 + 1 + l2 + 1) + d" by simp
  have "strlen_at m ((p + 2) + d) = Some l1" using l(1) unfolding e1 .
  then have l1: "strlen_at m' (p + 2) = Some l1"
  proof (rule strlen_at_shift)
    show "length m' = length m" by fact
    show "\<forall>i. p + 2 \<le> i \<and> i \<le> p + 2 + l1 \<longrightarrow> m' ! i = m ! (i + d)"
      using assms(4) q by auto
  qed
  have "strlen_at m ((p + 2 + l1 + 1) + d) = Some l2" using l(2) unfolding e2 .
  then have l2: "strlen_at m' (p + 2 + l1 + 1) = Some l2"
  proof (rule strlen_at_shift)
    show "length m' = length m" by fact
    show "\<forall>i. p + 2 + l1 + 1 \<le> i \<and> i \<le> p + 2 + l1 + 1 + l2 \<longrightarrow> m' ! i = m ! (i + d)"
      using assms(4) q by auto
  qed
  have "align4 ((p + 2 + l1 + 1 + l2 + 1) + d) = align4 (p + 2 + l1 + 1 + l2 + 1) + d"
    using assms(2) by (rule align4_shift)
  then have "q - d = align4 (p + 2 + l1 + 1 + l2 + 1)"
    using l(3) unfolding e3 by simp
  then show ?thesis
    unfolding skipEvent_Some_iff using l1 l2 by blast
qed

lemma skipEvent_agree:
  assumes "skipEvent m p = Some q" "length m' = length m"
    and "\<forall>i. p \<le> i \<and> i < q \<longrightarrow> m' ! i = m ! i"
  shows "skipEvent m' p = Some q"
  using skipEvent_shift [of m p 0 q m'] assms by simp

lemma strlen_at_before:
  assumes "p \<le> z" "z < length m" "m ! z = 0"
  shows "\<exists>l. strlen_at m p = Some l \<and> p + l \<le> z"
proof -
  define xs where "xs = drop p m"
  define l where "l = length (takeWhile (\<lambda>b. b \<noteq> 0) xs)"
  have z: "z - p < length xs" "xs ! (z - p) = 0"
    using assms by (auto simp: xs_def)
  have "\<not> z - p < l"
  proof
    assume "z - p < l"
    then have "z - p < length (takeWhile (\<lambda>b. b \<noteq> 0) xs)" by (simp add: l_def)
    then have "takeWhile (\<lambda>b. b \<noteq> 0) xs ! (z - p) \<in> set (takeWhile (\<lambda>b. b \<noteq> 0) xs)"
      and "takeWhile (\<lambda>b. b \<noteq> 0) xs ! (z - p) = xs ! (z - p)"
      by (rule nth_mem, rule takeWhile_nth)
    then have "xs ! (z - p) \<noteq> 0" by (metis set_takeWhileD)
    then show False using z by simp
  qed
  then have "p + l \<le> z" using assms(1) by simp
  then have "strlen_at m p = Some l \<and> p + l \<le> z"
    using assms(2) by (simp add: strlen_at_def l_def xs_def Let_def)
  then show ?thesis by blast
qed

lemma skipEvent_before:
  assumes "p + 2 \<le> z1" "z1 < z2" "z2 < length m" "m ! z1 = 0" "m ! z2 = 0"
  shows "\<exists>q. skipEvent m p = Some q \<and> q \<le> align4 (z2 + 1)"
proof -
  obtain l1 where l1: "strlen_at m (p + 2) = Some l1" "p + 2 + l1 \<le> z1"
    using strlen_at_before [of "p + 2" z1 m] assms by auto
  obtain l2 where l2: "strlen_at m (p + 2 + l1 + 1) = Some l2" "p + 2 + l1 + 1 + l2 \<le> z2"
    using strlen_at_before [of "p + 2 + l1 + 1" z2 m] assms l1(2) by auto
  have "align4 (p + 2 + l1 + 1 + l2 + 1) \<le> align4 (z2 + 1)"
    using l2(2) by (intro align4_mono) simp
  then show ?thesis
    unfolding skipEvent_Some_iff using l1(1) l2(1) by blast
qed

subsection \<open>The walk over the records\<close>

lemma walkEvents_bounds:
  "walkEvents m e k p = Some w \<Longrightarrow>
     p + 4 * k \<le> w \<and> (p mod 4 = 0 \<longrightarrow> w mod 4 = 0) \<and> (0 < k \<longrightarrow> w \<le> e)"
proof (induction k arbitrary: p)
  case 0
  then show ?case by simp
next
  case (Suc k)
  then obtain q where q: "skipEvent m p = Some q" "q \<le> e" "walkEvents m e k q = Some w"
    by (auto split: option.splits if_splits)
  have "q + 4 * k \<le> w \<and> (q mod 4 = 0 \<longrightarrow> w mod 4 = 0) \<and> (0 < k \<longrightarrow> w \<le> e)"
    using Suc.IH [OF q(3)] .
  moreover have "k = 0 \<Longrightarrow> w = q" using q(3) by simp
  ultimately show ?case
    using skipEvent_bounds [OF q(1)] q(2) by (cases k) auto
qed

lemma walkEvents_shift:
  assumes "walkEvents m e k (p + d) = Some w" "d mod 4 = 0" "length m' = length m"
    and "\<forall>i. p \<le> i \<and> i + d < w \<longrightarrow> m' ! i = m ! (i + d)"
  shows "walkEvents m' e k p = Some (w - d)"
  using assms(1,4)
proof (induction k arbitrary: p)
  case 0
  then show ?case by simp
next
  case (Suc k)
  then obtain q where q: "skipEvent m (p + d) = Some q" "q \<le> e" "walkEvents m e k q = Some w"
    by (auto split: option.splits if_splits)
  have qw: "q \<le> w" using walkEvents_bounds [OF q(3)] by simp
  have pq: "p + d + 4 \<le> q" using skipEvent_bounds(1) [OF q(1)] .
  have "skipEvent m' p = Some (q - d)"
    using q(1) assms(2,3) Suc.prems(2) qw by (elim skipEvent_shift) auto
  moreover have "walkEvents m' e k (q - d) = Some (w - d)"
  proof (rule Suc.IH)
    show "walkEvents m e k (q - d + d) = Some w" using q(3) pq by simp
    show "\<forall>i. q - d \<le> i \<and> i + d < w \<longrightarrow> m' ! i = m ! (i + d)"
      using Suc.prems(2) pq by auto
  qed
  ultimately show ?case using q(2) by simp
qed

lemma walkEvents_agree:
  assumes "walkEvents m e k p = Some w" "length m' = length m"
    and "\<forall>i. p \<le> i \<and> i < w \<longrightarrow> m' ! i = m ! i"
  shows "walkEvents m' e k p = Some w"
  using walkEvents_shift [of m e k p 0 w m'] assms by simp

lemma walkEvents_snoc:
  "walkEvents m e k p = Some w \<Longrightarrow> skipEvent m w = Some q \<Longrightarrow> q \<le> e \<Longrightarrow>
     walkEvents m e (Suc k) p = Some q"
proof (induction k arbitrary: p)
  case 0
  then show ?case by simp
next
  case (Suc k)
  then obtain r where r: "skipEvent m p = Some r" "r \<le> e" "walkEvents m e k r = Some w"
    by (auto split: option.splits if_splits)
  have "walkEvents m e (Suc k) r = Some q"
    using Suc.IH [OF r(3) Suc.prems(2,3)] .
  then show ?case using r(1,2) by simp
qed


subsection \<open>memmove and the header\<close>

lemma length_memmove_down:
  "start \<le> next \<Longrightarrow> next \<le> length m \<Longrightarrow> length (memmove_down m start next) = length m"
  by (simp add: memmove_down_def)

lemma nth_memmove_down:
  assumes "start \<le> next" "next \<le> length m" "i < length m"
  shows "memmove_down m start next ! i =
           (if start \<le> i \<and> i + (next - start) < length m then m ! (i + (next - start)) else m ! i)"
proof -
  consider "i < start" | "start \<le> i" "i + (next - start) < length m"
    | "start \<le> i" "\<not> i + (next - start) < length m"
    by linarith
  then show ?thesis
  proof cases
    case 1
    then show ?thesis using assms by (simp add: memmove_down_def nth_append)
  next
    case 2
    then have "i - start < length m - next" using assms by simp
    moreover have "next + (i - start) = i + (next - start)" using 2 assms by simp
    ultimately show ?thesis using 2 assms by (simp add: memmove_down_def nth_append)
  next
    case 3
    then have a: "\<not> i - start < length m - next" using assms by simp
    have "start + (length m - next) + (i - start - (length m - next)) = i"
      using 3 assms by simp
    then show ?thesis using 3 a assms by (simp add: memmove_down_def nth_append)
  qed
qed

lemma length_set_numEvents [simp]: "length (set_numEvents m v) = length m"
  by (simp add: set_numEvents_def)

lemma nth_set_numEvents: "i \<noteq> 6 \<Longrightarrow> i \<noteq> 7 \<Longrightarrow> set_numEvents m v ! i = m ! i"
  by (simp add: set_numEvents_def nth_wr16_other)

lemma hdr_numEvents_set: "8 \<le> length m \<Longrightarrow> hdr_numEvents (set_numEvents m v) = v"
  by (simp add: hdr_numEvents_def set_numEvents_def rd16_wr16_same)

lemma hdr_agree:
  assumes "\<forall>i<8. m' ! i = m ! i"
  shows "hdr_magic m' = hdr_magic m" and "hdr_size m' = hdr_size m"
    and "hdr_numEvents m' = hdr_numEvents m"
  using assms by (simp_all add: hdr_magic_def hdr_size_def hdr_numEvents_def rd32_def rd16_def)

lemma hdr_fixed_agree:
  assumes "\<forall>i<6. m' ! i = m ! i"
  shows "hdr_magic m' = hdr_magic m" and "hdr_size m' = hdr_size m"
  using assms by (simp_all add: hdr_magic_def hdr_size_def rd32_def rd16_def)

subsection \<open>discardOldEvent and the invariant\<close>

lemma queue_inv_walk:
  assumes "queue_inv s"
  obtains w where "walkEvents (mem s) (length (mem s)) (unat (hdr_numEvents (mem s))) 8 = Some w"
    and "w \<le> nextFree s" and "8 \<le> w" and "w mod 4 = 0"
proof -
  obtain w where w: "walkEvents (mem s) (length (mem s)) (unat (hdr_numEvents (mem s))) 8 = Some w"
      "w \<le> nextFree s"
    using assms by (auto simp: queue_inv_def sizeof_RetainedBufHeader_def split: option.splits)
  have b: "8 \<le> w" "w mod 4 = 0"
    using walkEvents_bounds [OF w(1)] by simp_all
  show ?thesis by (rule that [OF w b])
qed

text \<open>What a successful \<open>discardOldEvent\<close> does to the region, byte by byte.\<close>

lemma discardOldEvent_effect:
  assumes inv: "queue_inv s"
    and n: "if secondEvent then 2 \<le> unat (hdr_numEvents (mem s)) else 1 \<le> unat (hdr_numEvents (mem s))"
  shows "\<exists>start nxt m'.
           (if secondEvent then skipEvent (mem s) 8 = Some start else start = 8) \<and>
           skipEvent (mem s) start = Some nxt \<and>
           nxt \<le> nextFree s \<and>
           discardOldEvent secondEvent s
             = Inr (True, s\<lparr>mem := m', nextFree := nextFree s - (nxt - start)\<rparr>) \<and>
           length m' = length (mem s) \<and>
           hdr_numEvents m' = hdr_numEvents (mem s) - 1 \<and>
           (\<forall>i. i < start \<and> i \<noteq> 6 \<and> i \<noteq> 7 \<longrightarrow> m' ! i = mem s ! i) \<and>
           (\<forall>i. start \<le> i \<and> i + (nxt - start) < length (mem s)
                 \<longrightarrow> m' ! i = mem s ! (i + (nxt - start))) \<and>
           walkEvents m' (length m') (unat (hdr_numEvents m')) 8
             = map_option (\<lambda>w. w - (nxt - start))
                 (walkEvents (mem s) (length (mem s)) (unat (hdr_numEvents (mem s))) 8)"
proof -
  define m where "m = mem s"
  define e where "e = length m"
  define k where "k = unat (hdr_numEvents m)"
  obtain w where w: "walkEvents m e k 8 = Some w" "w \<le> nextFree s" "8 \<le> w"
    using queue_inv_walk [OF inv] unfolding m_def e_def k_def by metis
  have len: "e = unat (retainedBufferSize s)" "8 \<le> e" "nextFree s \<le> e"
    using inv by (simp_all add: queue_inv_def m_def e_def sizeof_RetainedBufHeader_def)
  have kpos: "1 \<le> k" using n unfolding k_def m_def by (simp split: if_splits)
  have nz: "hdr_numEvents m \<noteq> 0" using kpos unfolding k_def by (auto simp: unat_eq_0)
  have kpred: "unat (hdr_numEvents m - 1) = k - 1"
    using kpos unfolding k_def by (simp add: unat_minus_one nz)
  \<comment> \<open>the walk, split at the record to remove\<close>
  obtain start nxt where sn:
      "if secondEvent then skipEvent m 8 = Some start else start = 8"
      "skipEvent m start = Some nxt" "nxt \<le> e" "8 \<le> start"
      "walkEvents m e (k - (if secondEvent then 2 else 1)) nxt = Some w"
      "start mod 4 = 0"
  proof (cases secondEvent)
    case False
    obtain k' where k': "k = Suc k'" using kpos by (cases k) auto
    obtain q where "skipEvent m 8 = Some q" "q \<le> e" "walkEvents m e k' q = Some w"
      using w(1) unfolding k' by (auto split: option.splits if_splits)
    then show ?thesis using that [of 8 q] False k' by simp
  next
    case True
    then have "2 \<le> k" using n unfolding k_def m_def by simp
    then obtain k' where k': "k = Suc (Suc k')" by (cases k; cases "k - 1") auto
    obtain q where q: "skipEvent m 8 = Some q" "q \<le> e" "walkEvents m e (Suc k') q = Some w"
      using w(1) unfolding k' by (auto split: option.splits if_splits)
    obtain r where r: "skipEvent m q = Some r" "r \<le> e" "walkEvents m e k' r = Some w"
      using q(3) by (auto split: option.splits if_splits)
    have "8 \<le> q" "q mod 4 = 0" using skipEvent_bounds [OF q(1)] by simp_all
    then show ?thesis using that [of q r] True k' q r by simp
  qed
  define len where "len = nxt - start"
  have sn': "start + 4 \<le> nxt" "nxt mod 4 = 0"
    using skipEvent_bounds [OF sn(2)] by simp_all
  have lenmod: "len mod 4 = 0" using sn' sn(6) unfolding len_def by presburger
  have nw: "nxt \<le> w" using walkEvents_bounds [OF sn(5)] by simp
  define m1 where "m1 = (if e - nxt > 0 then memmove_down m start nxt else m)"
  define m' where "m' = set_numEvents m1 (hdr_numEvents m1 - 1)"
  have lm1: "length m1 = e"
    using sn(3) sn'(1) by (simp add: m1_def e_def length_memmove_down)
  have nth_m1: "m1 ! i = (if start \<le> i \<and> i + len < e then m ! (i + len) else m ! i)"
    if "i < e" for i
  proof (cases "e - nxt > 0")
    case True
    then show ?thesis
      using nth_memmove_down [of start nxt m i] sn(3) sn'(1) that
      by (simp add: m1_def e_def len_def)
  next
    case False
    then have "nxt = e" using sn(3) by simp
    then have "\<not> (start \<le> i \<and> i + len < e)" using sn'(1) unfolding len_def by linarith
    then show ?thesis using False by (auto simp: m1_def)
  qed
  have hdr_m1: "hdr_numEvents m1 = hdr_numEvents m"
    using nth_m1 sn(4) len(2) by (intro hdr_agree(3)) simp
  have lm': "length m' = e" by (simp add: m'_def lm1)
  have hn': "hdr_numEvents m' = hdr_numEvents m - 1"
    using lm1 len(2) by (simp add: m'_def hdr_numEvents_set hdr_m1)
  have nth_m': "m' ! i = (if start \<le> i \<and> i + len < e then m ! (i + len) else m ! i)"
    if "i < e" "i \<noteq> 6" "i \<noteq> 7" for i
    using that nth_m1 by (simp add: m'_def nth_set_numEvents)
  have res: "discardOldEvent secondEvent s
               = Inr (True, s\<lparr>mem := m', nextFree := nextFree s - len\<rparr>)"
  proof -
    have a: "\<not> (if secondEvent then hdr_numEvents m < 2 else hdr_numEvents m < 1)"
      using n unfolding m_def by (auto simp: word_less_nat_alt)
    have b: "(if secondEvent then skipEvent m sizeof_RetainedBufHeader
              else Some sizeof_RetainedBufHeader) = Some start"
      using sn(1) by (simp add: sizeof_RetainedBufHeader_def split: if_splits)
    have c: "\<not> unat (retainedBufferSize s) < nxt" "\<not> nextFree s < nxt - start"
      using sn(3) len(1) nw w(2) by simp_all
    show ?thesis
      unfolding discardOldEvent_def Let_def m_def [symmetric]
      using a b c sn(2) len(1)
      by (simp add: m'_def m1_def len_def e_def)
  qed
  have walk': "walkEvents m' e (unat (hdr_numEvents m')) 8 = Some (w - len)"
  proof (cases secondEvent)
    case False
    then have st: "start = 8" using sn(1) by simp
    have "walkEvents m e (k - 1) (8 + len) = Some w"
      using sn(5) False sn'(1) st by (simp add: len_def)
    then have "walkEvents m' e (k - 1) 8 = Some (w - len)"
    proof (rule walkEvents_shift)
      show "len mod 4 = 0" by fact
      show "length m' = length m" using lm' by (simp add: e_def)
      show "\<forall>i. 8 \<le> i \<and> i + len < w \<longrightarrow> m' ! i = m ! (i + len)"
        using nth_m' st w(2) len(3) by auto
    qed
    then show ?thesis by (simp add: hn' kpred)
  next
    case True
    then have k2: "2 \<le> k" using n unfolding k_def m_def by simp
    have first: "skipEvent m' 8 = Some start"
    proof (rule skipEvent_agree)
      show "skipEvent m 8 = Some start" using sn(1) True by simp
      show "length m' = length m" using lm' by (simp add: e_def)
      show "\<forall>i. 8 \<le> i \<and> i < start \<longrightarrow> m' ! i = m ! i"
        using nth_m' sn(3) sn'(1) by auto
    qed
    have "walkEvents m e (k - 2) (start + len) = Some w"
      using sn(5) True sn'(1) by (simp add: len_def)
    then have rest: "walkEvents m' e (k - 2) start = Some (w - len)"
    proof (rule walkEvents_shift)
      show "len mod 4 = 0" by fact
      show "length m' = length m" using lm' by (simp add: e_def)
      show "\<forall>i. start \<le> i \<and> i + len < w \<longrightarrow> m' ! i = m ! (i + len)"
        using nth_m' sn(4) w(2) len(3) by auto
    qed
    have "start \<le> e" using sn(3) sn'(1) by simp
    moreover have "k - 1 = Suc (k - 2)" using k2 by simp
    ultimately have "walkEvents m' e (k - 1) 8 = Some (w - len)"
      using first rest by simp
    then show ?thesis by (simp add: hn' kpred)
  qed
  show ?thesis
    apply (rule exI [of _ start], rule exI [of _ nxt], rule exI [of _ m'])
    using sn(1,2,4) nw w(1,2) res lm' hn' nth_m' walk' sn(3) sn'(1)
    unfolding m_def [symmetric] e_def [symmetric] k_def [symmetric] len_def [symmetric]
    by (auto simp: lm')
qed


lemma queue_inv_cursor:
  assumes "queue_inv s"
  shows "8 \<le> nextFree s" and "nextFree s \<le> unat (retainedBufferSize s)"
    and "8 \<le> unat (retainedBufferSize s)"
proof -
  obtain w where "w \<le> nextFree s" "8 \<le> w"
    using queue_inv_walk [OF assms] by metis
  then show "8 \<le> nextFree s" by simp
  show "nextFree s \<le> unat (retainedBufferSize s)" "8 \<le> unat (retainedBufferSize s)"
    using assms by (simp_all add: queue_inv_def sizeof_RetainedBufHeader_def)
qed

text \<open>The state invariant and the fixed header fields survive \<open>discardOldEvent\<close>.\<close>

lemma discardOldEvent_inv:
  assumes inv: "queue_inv s"
  shows "\<exists>r s'. discardOldEvent secondEvent s = Inr (r, s') \<and> queue_inv s' \<and>
           hdr_magic (mem s') = hdr_magic (mem s) \<and> hdr_size (mem s') = hdr_size (mem s) \<and>
           retainedBufferSize s' = retainedBufferSize s"
proof (cases "if secondEvent then 2 \<le> unat (hdr_numEvents (mem s))
              else 1 \<le> unat (hdr_numEvents (mem s))")
  case False
  then have "discardOldEvent secondEvent s = Inr (False, s)"
    by (auto simp: discardOldEvent_def Let_def word_less_nat_alt)
  then show ?thesis using inv by (intro exI [of _ False] exI [of _ s]) simp
next
  case True
  obtain start nxt m' where d:
      "if secondEvent then skipEvent (mem s) 8 = Some start else start = 8"
      "skipEvent (mem s) start = Some nxt"
      "nxt \<le> nextFree s"
      "discardOldEvent secondEvent s
         = Inr (True, s\<lparr>mem := m', nextFree := nextFree s - (nxt - start)\<rparr>)"
      "length m' = length (mem s)"
      "\<forall>i. i < start \<and> i \<noteq> 6 \<and> i \<noteq> 7 \<longrightarrow> m' ! i = mem s ! i"
      "walkEvents m' (length m') (unat (hdr_numEvents m')) 8
         = map_option (\<lambda>w. w - (nxt - start))
             (walkEvents (mem s) (length (mem s)) (unat (hdr_numEvents (mem s))) 8)"
    using discardOldEvent_effect [OF inv True] by blast
  obtain w where w: "walkEvents (mem s) (length (mem s)) (unat (hdr_numEvents (mem s))) 8 = Some w"
      "w \<le> nextFree s"
    using queue_inv_walk [OF inv] by metis
  have st: "8 \<le> start" "start mod 4 = 0"
    using d(1) skipEvent_bounds [of "mem s" 8 start] by (auto split: if_splits)
  have nx: "start + 4 \<le> nxt" "nxt mod 4 = 0"
    using skipEvent_bounds [OF d(2)] by simp_all
  define s' where "s' = s\<lparr>mem := m', nextFree := nextFree s - (nxt - start)\<rparr>"
  have nfm: "nextFree s mod 4 = 0" using inv by (simp add: queue_inv_def)
  have "(nextFree s - (nxt - start)) mod 4 = 0"
    using nfm st(2) nx d(3) by presburger
  then have "nextFree s' mod 4 = 0" by (simp add: s'_def)
  moreover have "walkEvents (mem s') (length (mem s')) (unat (hdr_numEvents (mem s'))) 8
                   = Some (w - (nxt - start))"
    using d(7) w(1) by (simp add: s'_def)
  moreover have "w - (nxt - start) \<le> nextFree s'"
    using w(2) by (simp add: s'_def)
  ultimately have "queue_inv s'"
    using inv d(5) unfolding queue_inv_def
    by (auto simp: s'_def sizeof_RetainedBufHeader_def)
  moreover have "hdr_magic (mem s') = hdr_magic (mem s)" "hdr_size (mem s') = hdr_size (mem s)"
    using d(6) st(1) by (auto simp: s'_def intro!: hdr_fixed_agree)
  ultimately show ?thesis
    using d(4) by (intro exI [of _ True] exI [of _ s']) (simp add: s'_def)
qed

subsection \<open>publish and the invariant\<close>

lemma strcpy_at_effect:
  assumes "p + strlen s + 1 \<le> length m"
  shows "\<exists>m'. strcpy_at m p s = Inr m' \<and> length m' = length m \<and>
           m' ! (p + strlen s) = 0 \<and> (\<forall>i<p. m' ! i = m ! i)"
proof -
  define bs where "bs = map byte_of_char (c_str s) @ [0]"
  define m' where "m' = take p m @ bs @ drop (p + length bs) m"
  have lb: "length bs = strlen s + 1" by (simp add: bs_def strlen_def)
  have "strcpy_at m p s = Inr m'"
    using assms lb by (simp add: strcpy_at_def Let_def bs_def [symmetric] m'_def)
  moreover have "length m' = length m"
    using assms lb by (simp add: m'_def)
  moreover have "m' ! (p + strlen s) = 0"
    using assms by (simp add: m'_def nth_append bs_def strlen_def)
  moreover have "\<forall>i<p. m' ! i = m ! i"
    using assms by (simp add: m'_def nth_append)
  ultimately show ?thesis by blast
qed

lemma writeEvent_effect:
  assumes "p + 2 + strlen en + 1 + strlen d + 1 \<le> length m"
  shows "\<exists>m'. writeEvent m p port en d = Inr m' \<and> length m' = length m \<and>
           m' ! (p + 2 + strlen en) = 0 \<and> m' ! (p + 2 + strlen en + 1 + strlen d) = 0 \<and>
           (\<forall>i<p. m' ! i = m ! i)"
proof -
  define m0 where "m0 = wr16 m p port"
  have l0: "length m0 = length m" by (simp add: m0_def)
  have n0: "\<forall>i<p. m0 ! i = m ! i" by (simp add: m0_def nth_wr16_other)
  obtain m1 where m1: "strcpy_at m0 (p + 2) en = Inr m1" "length m1 = length m0"
      "m1 ! (p + 2 + strlen en) = 0" "\<forall>i<p + 2. m1 ! i = m0 ! i"
    using strcpy_at_effect [of "p + 2" en m0] assms l0 by auto
  obtain m2 where m2: "strcpy_at m1 (p + 2 + strlen en + 1) d = Inr m2" "length m2 = length m1"
      "m2 ! (p + 2 + strlen en + 1 + strlen d) = 0" "\<forall>i<p + 2 + strlen en + 1. m2 ! i = m1 ! i"
    using strcpy_at_effect [of "p + 2 + strlen en + 1" d m1] assms l0 m1(2) by auto
  have "writeEvent m p port en d = Inr m2"
    using assms m1(1) m2(1)
    by (simp add: writeEvent_def sizeof_EventData_def m0_def [symmetric])
  moreover have "m2 ! (p + 2 + strlen en) = 0" using m2(4) m1(3) by simp
  moreover have "\<forall>i<p. m2 ! i = m ! i" using m2(4) m1(4) n0 by simp
  ultimately show ?thesis using m2(2,3) m1(2) l0 by simp
qed

lemma eventSize_props: "eventSize h p b mod 4 = 0" "eventSize h p b < 2 ^ 32"
proof -
  define n where "n = (sizeof_EventData + strlen h + strlen p + strlen b + 3) mod 2 ^ 32"
  define r :: nat where "r = 2 ^ 32"
  have n: "n < r" by (simp add: n_def r_def)
  have r4: "4 dvd r" by (simp add: r_def)
  have e: "eventSize h p b = (if n mod 4 \<noteq> 0 then (n + (4 - n mod 4)) mod r else n)"
    by (simp add: eventSize_def n_def Let_def r_def)
  have "(n + (4 - n mod 4)) mod r mod 4 = (n + (4 - n mod 4)) mod 4"
    using r4 by (rule mod_mod_cancel)
  moreover have "(n + (4 - n mod 4)) mod 4 = 0" by presburger
  ultimately show "eventSize h p b mod 4 = 0" unfolding e by simp
  have "(n + (4 - n mod 4)) mod r < r" by (simp add: r_def)
  then show "eventSize h p b < 2 ^ 32" unfolding e using n by (simp add: r_def)
qed

text \<open>The two \<open>size_t\<close> comparisons of \<open>publish\<close>, when the cursor is inside the region.\<close>

lemma size_t_diff:
  assumes "b \<le> a" "a < 65536"
  shows "(int a - int b) mod 2 ^ 32 = int (a - b)"
proof -
  have e: "int a - int b = int (a - b)" using assms(1) by simp
  have "a - b < 65536" using assms(2) by simp
  then have "int (a - b) < 65536" by linarith
  moreover have "(65536 :: int) < 2 ^ 32" by simp
  ultimately have "int (a - b) < 2 ^ 32" by (rule less_trans)
  moreover have "0 \<le> int (a - b)" by simp
  ultimately have "int (a - b) mod 2 ^ 32 = int (a - b)"
    by (rule mod_pos_pos_trivial [rotated])
  then show ?thesis unfolding e .
qed

lemma publish_in_range:
  assumes "8 \<le> unat (retainedBufferSize s)" "nextFree s \<le> unat (retainedBufferSize s)"
  shows "publish hostName port path body eventName data s =
     (let dat = (case data of None \<Rightarrow> [] | Some d \<Rightarrow> d);
          size = eventSize hostName path body;
          e = unat (retainedBufferSize s)
      in if size > e - 8 then Inr (False, s)
         else if size \<le> e - nextFree s then
           (case writeEvent (mem s) (nextFree s) port eventName dat of
              Inl f \<Rightarrow> Inl f
            | Inr m1 \<Rightarrow>
                Inr (True, s\<lparr>mem := set_numEvents m1 (hdr_numEvents m1 + 1),
                             nextFree := nextFree s + size\<rparr>))
         else if hdr_numEvents (mem s) = 1 then Inr (False, s)
         else
           (case discardOldEvent (isSending s) s of
              Inl f \<Rightarrow> Inl f
            | Inr (r, s1) \<Rightarrow> Inr (False, s1)))"
proof -
  have "unat (retainedBufferSize s) < 2 ^ LENGTH(16)" by (rule unsigned_less)
  then have lt: "unat (retainedBufferSize s) < 65536" by simp
  have a: "(int (unat (retainedBufferSize s)) - int sizeof_RetainedBufHeader) mod 2 ^ 32
             = int (unat (retainedBufferSize s) - 8)"
    unfolding sizeof_RetainedBufHeader_def using assms(1) lt by (rule size_t_diff)
  have b: "(int (unat (retainedBufferSize s)) - int (nextFree s)) mod 2 ^ 32
             = int (unat (retainedBufferSize s) - nextFree s)"
    using assms(2) lt by (rule size_t_diff)
  show ?thesis
    unfolding publish_def Let_def a b by simp
qed

text \<open>The write path of \<open>publish\<close>: a record that fits its slot keeps the invariant.\<close>

lemma publish_write_inv:
  assumes inv: "queue_inv s"
    and fits: "sizeof_EventData + strlen en + 1 + strlen dat + 1 \<le> esz"
    and sz: "esz mod 4 = 0" "esz \<le> unat (retainedBufferSize s) - nextFree s"
  shows "\<exists>m1. writeEvent (mem s) (nextFree s) port en dat = Inr m1 \<and>
           queue_inv (s\<lparr>mem := set_numEvents m1 (hdr_numEvents m1 + 1),
                         nextFree := nextFree s + esz\<rparr>) \<and>
           hdr_magic (set_numEvents m1 (hdr_numEvents m1 + 1)) = hdr_magic (mem s) \<and>
           hdr_size (set_numEvents m1 (hdr_numEvents m1 + 1)) = hdr_size (mem s) \<and>
           hdr_numEvents (set_numEvents m1 (hdr_numEvents m1 + 1)) = hdr_numEvents (mem s) + 1"
proof -
  define m where "m = mem s"
  define e where "e = length m"
  define nf where "nf = nextFree s"
  define k where "k = unat (hdr_numEvents m)"
  obtain w where w: "walkEvents m e k 8 = Some w" "w \<le> nf" "8 \<le> w"
    using queue_inv_walk [OF inv] unfolding m_def e_def k_def nf_def by metis
  have len: "e = unat (retainedBufferSize s)" "8 \<le> e" "nf \<le> e" "nf mod 4 = 0"
    using inv by (simp_all add: queue_inv_def m_def e_def nf_def sizeof_RetainedBufHeader_def)
  have nf8: "8 \<le> nf" using w by simp
  have room: "nf + esz \<le> e" using sz(2) len(1,3) by (simp add: nf_def)
  have wr: "nf + 2 + strlen en + 1 + strlen dat + 1 \<le> nf + esz"
    using fits by (simp add: sizeof_EventData_def)
  obtain m1 where m1: "writeEvent m nf port en dat = Inr m1" "length m1 = e"
      "m1 ! (nf + 2 + strlen en) = 0" "m1 ! (nf + 2 + strlen en + 1 + strlen dat) = 0"
      "\<forall>i<nf. m1 ! i = m ! i"
    using writeEvent_effect [of nf en dat m port] wr room unfolding e_def by auto
  define m' where "m' = set_numEvents m1 (hdr_numEvents m1 + 1)"
  have h1: "hdr_numEvents m1 = hdr_numEvents m" "hdr_magic m1 = hdr_magic m"
      "hdr_size m1 = hdr_size m"
    using m1(5) nf8 by (auto intro!: hdr_agree)
  have lm': "length m' = e" by (simp add: m'_def m1(2))
  have hn': "hdr_numEvents m' = hdr_numEvents m + 1"
    using m1(2) len(2) by (simp add: m'_def hdr_numEvents_set h1)
  have hf': "hdr_magic m' = hdr_magic m" "hdr_size m' = hdr_size m"
  proof -
    have "\<forall>i<6. m' ! i = m1 ! i" by (simp add: m'_def nth_set_numEvents)
    then show "hdr_magic m' = hdr_magic m" "hdr_size m' = hdr_size m"
      using hdr_fixed_agree [of m' m1] h1 by simp_all
  qed
  have nth': "m' ! i = m1 ! i" if "8 \<le> i" for i
    using that by (simp add: m'_def nth_set_numEvents)
  \<comment> \<open>the count does not wrap: each record takes at least four bytes\<close>
  have "8 + 4 * k \<le> w" using walkEvents_bounds [OF w(1)] by simp
  moreover have "e < 65536"
  proof -
    have "unat (retainedBufferSize s) < 2 ^ LENGTH(16)" by (rule unsigned_less)
    then show ?thesis by (simp add: len(1))
  qed
  ultimately have ksmall: "k + 1 < 65536" using w(2) len(3) by simp
  have k': "unat (hdr_numEvents m + 1) = Suc k"
  proof -
    have "unat (hdr_numEvents m) + unat (1 :: 16 word) < 2 ^ LENGTH(16)"
      using ksmall by (simp add: k_def)
    then have "unat (hdr_numEvents m + 1) = unat (hdr_numEvents m) + unat (1 :: 16 word)"
      by (rule unat_add_lem [THEN iffD1])
    then show ?thesis by (simp add: k_def)
  qed
  \<comment> \<open>the records walked so far are untouched\<close>
  have walk_old: "walkEvents m' e k 8 = Some w"
    using w(1)
  proof (rule walkEvents_agree)
    show "length m' = length m" by (simp add: lm' e_def)
    show "\<forall>i. 8 \<le> i \<and> i < w \<longrightarrow> m' ! i = m ! i"
      using nth' m1(5) w(2) by simp
  qed
  \<comment> \<open>one more skip ends inside the new slot\<close>
  obtain q where q: "skipEvent m' w = Some q"
      "q \<le> align4 (nf + 2 + strlen en + 1 + strlen dat + 1)"
  proof -
    have "\<exists>q. skipEvent m' w = Some q \<and> q \<le> align4 ((nf + 2 + strlen en + 1 + strlen dat) + 1)"
    proof (rule skipEvent_before)
      show "w + 2 \<le> nf + 2 + strlen en" using w(2) by simp
      show "nf + 2 + strlen en < nf + 2 + strlen en + 1 + strlen dat" by simp
      show "nf + 2 + strlen en + 1 + strlen dat < length m'" using wr room lm' by simp
      show "m' ! (nf + 2 + strlen en) = 0" using m1(3) nth' nf8 by simp
      show "m' ! (nf + 2 + strlen en + 1 + strlen dat) = 0" using m1(4) nth' nf8 by simp
    qed
    then show ?thesis using that by auto
  qed
  have "align4 (nf + 2 + strlen en + 1 + strlen dat + 1) \<le> align4 (nf + esz)"
    using wr by (rule align4_mono)
  moreover have "(nf + esz) mod 4 = 0" using len(4) sz(1) by presburger
  ultimately have qle: "q \<le> nf + esz" using q(2) by (simp add: align4_id)
  have "walkEvents m' e (Suc k) 8 = Some q"
    using walk_old q(1) qle room by (intro walkEvents_snoc) simp_all
  then have "queue_inv (s\<lparr>mem := m', nextFree := nf + esz\<rparr>)"
    using len room qle lm' \<open>(nf + esz) mod 4 = 0\<close>
    by (simp add: queue_inv_def hn' k' sizeof_RetainedBufHeader_def)
  then show ?thesis
    using m1(1) hf' hn' unfolding m'_def m_def nf_def by blast
qed

lemma publish_inv:
  assumes inv: "queue_inv s"
    and fits: "recordFits (Publish hostName port path body eventName data)"
  shows "\<exists>r s'. publish hostName port path body eventName data s = Inr (r, s') \<and>
           queue_inv s' \<and>
           hdr_magic (mem s') = hdr_magic (mem s) \<and> hdr_size (mem s') = hdr_size (mem s) \<and>
           retainedBufferSize s' = retainedBufferSize s"
proof -
  define dat where "dat = (case data of None \<Rightarrow> [] | Some d \<Rightarrow> d)"
  define esz where "esz = eventSize hostName path body"
  define e where "e = unat (retainedBufferSize s)"
  note c = queue_inv_cursor [OF inv]
  have pub: "publish hostName port path body eventName data s =
     (if esz > e - 8 then Inr (False, s)
      else if esz \<le> e - nextFree s then
        (case writeEvent (mem s) (nextFree s) port eventName dat of
           Inl f \<Rightarrow> Inl f
         | Inr m1 \<Rightarrow>
             Inr (True, s\<lparr>mem := set_numEvents m1 (hdr_numEvents m1 + 1),
                          nextFree := nextFree s + esz\<rparr>))
      else if hdr_numEvents (mem s) = 1 then Inr (False, s)
      else
        (case discardOldEvent (isSending s) s of
           Inl f \<Rightarrow> Inl f
         | Inr (r, s1) \<Rightarrow> Inr (False, s1)))"
    unfolding dat_def esz_def e_def
    by (rule publish_in_range [unfolded Let_def, OF c(3) c(2)])
  consider "esz > e - 8" | "\<not> esz > e - 8" "esz \<le> e - nextFree s"
    | "\<not> esz > e - 8" "\<not> esz \<le> e - nextFree s" "hdr_numEvents (mem s) = 1"
    | "\<not> esz > e - 8" "\<not> esz \<le> e - nextFree s" "hdr_numEvents (mem s) \<noteq> 1"
    by blast
  then show ?thesis
  proof cases
    case 1
    then show ?thesis using inv pub by (intro exI [of _ False] exI [of _ s]) simp
  next
    case 2
    have f: "sizeof_EventData + strlen eventName + 1 + strlen dat + 1 \<le> esz"
      using fits by (simp add: dat_def esz_def)
    obtain m1 where m1: "writeEvent (mem s) (nextFree s) port eventName dat = Inr m1"
        "queue_inv (s\<lparr>mem := set_numEvents m1 (hdr_numEvents m1 + 1),
                      nextFree := nextFree s + esz\<rparr>)"
        "hdr_magic (set_numEvents m1 (hdr_numEvents m1 + 1)) = hdr_magic (mem s)"
        "hdr_size (set_numEvents m1 (hdr_numEvents m1 + 1)) = hdr_size (mem s)"
      using publish_write_inv [OF inv f, of port] eventSize_props(1) [of hostName path body] 2(2)
      unfolding esz_def e_def by blast
    show ?thesis
      using 2 pub m1
      by (intro exI [of _ True]
            exI [of _ "s\<lparr>mem := set_numEvents m1 (hdr_numEvents m1 + 1),
                          nextFree := nextFree s + esz\<rparr>"]) simp
  next
    case 3
    then show ?thesis using inv pub by (intro exI [of _ False] exI [of _ s]) simp
  next
    case 4
    obtain r s' where d: "discardOldEvent (isSending s) s = Inr (r, s')" "queue_inv s'"
        "hdr_magic (mem s') = hdr_magic (mem s)" "hdr_size (mem s') = hdr_size (mem s)"
        "retainedBufferSize s' = retainedBufferSize s"
      using discardOldEvent_inv [OF inv] by blast
    show ?thesis
      using 4 pub d by (intro exI [of _ False] exI [of _ s']) simp
  qed
qed

subsection \<open>Evaluation on concrete regions\<close>

lemma walkEvents_unfold:
  "walkEvents m e k p =
     (if k = 0 then Some p
      else case skipEvent m p of
             None \<Rightarrow> None
           | Some q \<Rightarrow> if q > e then None else walkEvents m e (k - 1) q)"
  by (cases k) (auto split: option.splits)

lemma eventsFrom_unfold:
  "eventsFrom m k p =
     (if k = 0 then []
      else case (eventAt m p, skipEvent m p) of
             (Some ev, Some q) \<Rightarrow> ev # eventsFrom m (k - 1) q
           | _ \<Rightarrow> [])"
  by (cases k) (auto split: option.splits)

lemmas eval_defs = queue_inv_def queued_def eventAt_def string_at_def char_of_byte_def byte_of_char_def
  hdr_magic_def hdr_size_def hdr_numEvents_def rd32_def rd16_def wr16_def wr32_def
  set_magic_def set_size_def set_numEvents_def
  skipEvent_def strlen_at_def strlen_def c_str_def strcpy_at_def writeEvent_def eventSize_def
  sizeof_EventData_def sizeof_RetainedBufHeader_def RETAINED_BUF_HEADER_MAGIC_def
  construct_def discardOldEvent_def memmove_down_def publish_def clearEvents_def
  checkQueueState_def tick_def oldestEvent_def
  walkEvents_unfold eventsFrom_unfold Let_def word_cat_eq char_of_eq_iff


subsection \<open>The queued records\<close>

lemma string_at_shift:
  assumes "strlen_at m (p + d) = Some l" "length m' = length m"
    and "\<forall>i. p \<le> i \<and> i \<le> p + l \<longrightarrow> m' ! i = m ! (i + d)"
  shows "string_at m' p = string_at m (p + d)"
proof -
  have l': "strlen_at m' p = Some l" using assms by (rule strlen_at_shift)
  have b: "p + d + l < length m" using assms(1) unfolding strlen_at_Some_iff by simp
  have "take l (drop p m') = take l (drop (p + d) m)"
  proof (rule nth_equalityI)
    show "length (take l (drop p m')) = length (take l (drop (p + d) m))"
      using b assms(2) by simp
    fix i assume "i < length (take l (drop p m'))"
    then have i: "i < l" by simp
    then have "m' ! (p + i) = m ! (p + i + d)" using assms(3) by simp
    moreover have "p + i + d = p + d + i" by simp
    ultimately show "take l (drop p m') ! i = take l (drop (p + d) m) ! i"
      using i b assms(2) by simp
  qed
  then show ?thesis using l' assms(1) by (simp add: string_at_def)
qed

lemma string_at_length:
  "string_at m p = Some s \<Longrightarrow> strlen_at m p = Some (length s)"
  by (auto simp: string_at_def strlen_at_Some_iff split: option.splits)

lemma eventAt_skipEvent:
  assumes "skipEvent m p = Some q"
  shows "\<exists>ev. eventAt m p = Some ev"
proof -
  obtain l1 l2 where l: "strlen_at m (p + 2) = Some l1" "strlen_at m (p + 2 + l1 + 1) = Some l2"
    using assms unfolding skipEvent_Some_iff by blast
  have "p + 2 + l1 < length m" using l(1) unfolding strlen_at_Some_iff by simp
  then have "string_at m (p + 2) = Some (map char_of_byte (take l1 (drop (p + 2) m)))"
      "length (map char_of_byte (take l1 (drop (p + 2) m))) = l1"
    using l(1) by (simp_all add: string_at_def)
  then show ?thesis
    using l(2) by (simp add: eventAt_def sizeof_EventData_def string_at_def)
qed

lemma eventAt_shift:
  assumes "skipEvent m (p + d) = Some q" "length m' = length m"
    and "\<forall>i. p \<le> i \<and> i + d < q \<longrightarrow> m' ! i = m ! (i + d)"
  shows "eventAt m' p = eventAt m (p + d)"
proof -
  obtain l1 l2 where l: "strlen_at m (p + d + 2) = Some l1"
      "strlen_at m (p + d + 2 + l1 + 1) = Some l2"
      "q = align4 (p + d + 2 + l1 + 1 + l2 + 1)"
    using assms(1) unfolding skipEvent_Some_iff by blast
  have q: "p + d + 2 + l1 + 1 + l2 + 1 \<le> q" using l(3) align4_props by simp
  have e1: "p + d + 2 = (p + 2) + d" by simp
  have e2: "p + d + 2 + l1 + 1 = (p + 2 + l1 + 1) + d" by simp
  have b1: "p + 2 + d + l1 < length m" using l(1) unfolding strlen_at_Some_iff e1 by simp
  have s1: "string_at m' (p + 2) = string_at m ((p + 2) + d)"
  proof (rule string_at_shift)
    show "strlen_at m ((p + 2) + d) = Some l1" using l(1) unfolding e1 .
    show "length m' = length m" by fact
    show "\<forall>i. p + 2 \<le> i \<and> i \<le> p + 2 + l1 \<longrightarrow> m' ! i = m ! (i + d)"
      using assms(3) q by auto
  qed
  have s2: "string_at m' (p + 2 + l1 + 1) = string_at m ((p + 2 + l1 + 1) + d)"
  proof (rule string_at_shift)
    show "strlen_at m ((p + 2 + l1 + 1) + d) = Some l2" using l(2) unfolding e2 .
    show "length m' = length m" by fact
    show "\<forall>i. p + 2 + l1 + 1 \<le> i \<and> i \<le> p + 2 + l1 + 1 + l2 \<longrightarrow> m' ! i = m ! (i + d)"
      using assms(3) q by auto
  qed
  obtain en where en: "string_at m ((p + 2) + d) = Some en" "length en = l1"
    using l(1) b1 unfolding e1 by (simp add: string_at_def)
  have r: "rd16 m' p = rd16 m (p + d)"
  proof -
    have "m' ! p = m ! (p + d)" "m' ! (p + 1) = m ! (p + 1 + d)"
      using assms(3) q by simp_all
    moreover have "p + 1 + d = p + d + 1" by simp
    ultimately show ?thesis by (simp add: rd16_def)
  qed
  have "eventAt m' p =
          (case string_at m' (p + 2 + l1 + 1) of None \<Rightarrow> None
           | Some ed \<Rightarrow> Some (rd16 m' p, en, ed))"
    using s1 en by (simp add: eventAt_def sizeof_EventData_def)
  moreover have "eventAt m (p + d) =
          (case string_at m ((p + 2 + l1 + 1) + d) of None \<Rightarrow> None
           | Some ed \<Rightarrow> Some (rd16 m (p + d), en, ed))"
    using en unfolding e1 [symmetric] e2 [symmetric]
    by (simp add: eventAt_def sizeof_EventData_def)
  ultimately show ?thesis using s2 r by (simp split: option.splits)
qed

lemma eventsFrom_shift:
  assumes "walkEvents m e k (p + d) = Some w" "d mod 4 = 0" "length m' = length m"
    and "\<forall>i. p \<le> i \<and> i + d < w \<longrightarrow> m' ! i = m ! (i + d)"
  shows "eventsFrom m' k p = eventsFrom m k (p + d)"
  using assms(1,4)
proof (induction k arbitrary: p)
  case 0
  then show ?case by simp
next
  case (Suc k)
  then obtain q where q: "skipEvent m (p + d) = Some q" "q \<le> e" "walkEvents m e k q = Some w"
    by (auto split: option.splits if_splits)
  have qw: "q \<le> w" using walkEvents_bounds [OF q(3)] by simp
  have pq: "p + d + 4 \<le> q" using skipEvent_bounds(1) [OF q(1)] .
  have agree: "\<forall>i. p \<le> i \<and> i + d < q \<longrightarrow> m' ! i = m ! (i + d)"
    using Suc.prems(2) qw by auto
  have sk: "skipEvent m' p = Some (q - d)"
    using q(1) assms(2,3) agree by (rule skipEvent_shift)
  have ev: "eventAt m' p = eventAt m (p + d)"
    using q(1) assms(3) agree by (rule eventAt_shift)
  have "eventsFrom m' k (q - d) = eventsFrom m k (q - d + d)"
  proof (rule Suc.IH)
    show "walkEvents m e k (q - d + d) = Some w" using q(3) pq by simp
    show "\<forall>i. q - d \<le> i \<and> i + d < w \<longrightarrow> m' ! i = m ! (i + d)"
      using Suc.prems(2) pq by auto
  qed
  then have "eventsFrom m' k (q - d) = eventsFrom m k q" using pq by simp
  then show ?case using sk ev q(1) by (simp split: option.splits)
qed

lemma eventsFrom_Suc:
  assumes "walkEvents m e (Suc k) p = Some w"
  shows "\<exists>ev q. skipEvent m p = Some q \<and> q \<le> e \<and> walkEvents m e k q = Some w \<and>
           eventAt m p = Some ev \<and> eventsFrom m (Suc k) p = ev # eventsFrom m k q"
proof -
  obtain q where q: "skipEvent m p = Some q" "q \<le> e" "walkEvents m e k q = Some w"
    using assms by (auto split: option.splits if_splits)
  obtain ev where "eventAt m p = Some ev" using eventAt_skipEvent [OF q(1)] by blast
  then show ?thesis using q by (cases ev) auto
qed

text \<open>What a successful \<open>discardOldEvent\<close> does to the queued records.\<close>

lemma discardOldEvent_queued:
  assumes inv: "queue_inv s"
    and n: "if secondEvent then 2 \<le> unat (hdr_numEvents (mem s)) else 1 \<le> unat (hdr_numEvents (mem s))"
  shows "\<exists>start nxt m'.
           (if secondEvent then skipEvent (mem s) 8 = Some start else start = 8) \<and>
           skipEvent (mem s) start = Some nxt \<and>
           discardOldEvent secondEvent s
             = Inr (True, s\<lparr>mem := m', nextFree := nextFree s - (nxt - start)\<rparr>) \<and>
           hdr_numEvents m' = hdr_numEvents (mem s) - 1 \<and>
           (\<forall>i. 8 \<le> i \<and> i < start \<longrightarrow> m' ! i = mem s ! i) \<and>
           (if secondEvent
            then \<exists>first second rest. queued s = first # second # rest \<and>
                   queued (s\<lparr>mem := m', nextFree := nextFree s - (nxt - start)\<rparr>) = first # rest
            else \<exists>first rest. queued s = first # rest \<and>
                   queued (s\<lparr>mem := m', nextFree := nextFree s - (nxt - start)\<rparr>) = rest)"
proof -
  define m where "m = mem s"
  define e where "e = length m"
  define k where "k = unat (hdr_numEvents m)"
  obtain start nxt m' where d:
      "if secondEvent then skipEvent m 8 = Some start else start = 8"
      "skipEvent m start = Some nxt"
      "nxt \<le> nextFree s"
      "discardOldEvent secondEvent s
         = Inr (True, s\<lparr>mem := m', nextFree := nextFree s - (nxt - start)\<rparr>)"
      "length m' = e"
      "hdr_numEvents m' = hdr_numEvents m - 1"
      "\<forall>i. i < start \<and> i \<noteq> 6 \<and> i \<noteq> 7 \<longrightarrow> m' ! i = m ! i"
      "\<forall>i. start \<le> i \<and> i + (nxt - start) < e \<longrightarrow> m' ! i = m ! (i + (nxt - start))"
    using discardOldEvent_effect [OF inv n] unfolding m_def e_def by blast
  define len where "len = nxt - start"
  obtain w where w: "walkEvents m e k 8 = Some w" "w \<le> nextFree s"
    using queue_inv_walk [OF inv] unfolding m_def e_def k_def by metis
  have we: "w \<le> e" using w(2) inv by (simp add: queue_inv_def e_def m_def)
  have kpos: "1 \<le> k" using n unfolding k_def m_def by (simp split: if_splits)
  then have nz: "hdr_numEvents m \<noteq> 0" unfolding k_def by (auto simp: unat_eq_0)
  have kpred: "unat (hdr_numEvents m') = k - 1"
    using kpos unfolding k_def d(6) by (simp add: unat_minus_one nz)
  have st: "8 \<le> start" "start mod 4 = 0"
    using d(1) skipEvent_bounds [of m 8 start] by (auto split: if_splits)
  have nx: "start + 4 \<le> nxt" "nxt mod 4 = 0"
    using skipEvent_bounds [OF d(2)] by simp_all
  have lenmod: "len mod 4 = 0" using st(2) nx unfolding len_def by presburger
  have sl: "start + len = nxt" using nx(1) by (simp add: len_def)
  have keep: "\<forall>i. 8 \<le> i \<and> i < start \<longrightarrow> m' ! i = m ! i" using d(7) by simp
  have shift: "\<forall>i. start \<le> i \<and> i + len < w \<longrightarrow> m' ! i = m ! (i + len)"
    using d(8) we unfolding len_def by auto
  have q': "queued (s\<lparr>mem := m', nextFree := nextFree s - (nxt - start)\<rparr>)
              = eventsFrom m' (k - 1) 8"
    by (simp add: queued_def kpred sizeof_RetainedBufHeader_def)
  have q0: "queued s = eventsFrom m k 8"
    by (simp add: queued_def k_def m_def sizeof_RetainedBufHeader_def)
  have tail: "if secondEvent
       then \<exists>first second rest. eventsFrom m k 8 = first # second # rest \<and>
              eventsFrom m' (k - 1) 8 = first # rest
       else \<exists>first rest. eventsFrom m k 8 = first # rest \<and> eventsFrom m' (k - 1) 8 = rest"
  proof (cases secondEvent)
    case False
    then have s8: "start = 8" using d(1) by simp
    obtain k' where k': "k = Suc k'" using kpos by (cases k) auto
    obtain ev q where ev: "skipEvent m 8 = Some q" "walkEvents m e k' q = Some w"
        "eventsFrom m k 8 = ev # eventsFrom m k' q"
      using eventsFrom_Suc [of m e k' 8 w] w(1) unfolding k' by blast
    have qn: "q = nxt" using ev(1) d(2) s8 by simp
    have "walkEvents m e k' (8 + len) = Some w" using ev(2) qn sl s8 by simp
    then have "eventsFrom m' k' 8 = eventsFrom m k' (8 + len)"
      using lenmod
    proof (rule eventsFrom_shift)
      show "length m' = length m" using d(5) by (simp add: e_def)
      show "\<forall>i. 8 \<le> i \<and> i + len < w \<longrightarrow> m' ! i = m ! (i + len)"
        using shift s8 by simp
    qed
    then have "eventsFrom m' (k - 1) 8 = eventsFrom m k' q"
      using qn sl s8 by (simp add: k')
    then show ?thesis using False ev(3) by (cases ev) simp
  next
    case True
    then have "2 \<le> k" using n unfolding k_def m_def by simp
    then obtain k' where k': "k = Suc (Suc k')" by (cases k; cases "k - 1") auto
    obtain ev1 q1 where ev1: "skipEvent m 8 = Some q1" "walkEvents m e (Suc k') q1 = Some w"
        "eventAt m 8 = Some ev1" "eventsFrom m k 8 = ev1 # eventsFrom m (Suc k') q1"
      using eventAt_def eventsFrom_Suc [of m e "Suc k'" 8 w] w(1) unfolding k' by blast
    have q1: "q1 = start" using ev1(1) d(1) True by simp
    obtain ev2 q2 where ev2: "skipEvent m q1 = Some q2" "walkEvents m e k' q2 = Some w"
        "eventsFrom m (Suc k') q1 = ev2 # eventsFrom m k' q2"
      using eventsFrom_Suc [of m e k' q1 w] ev1(2) by blast
    have q2: "q2 = nxt" using ev2(1) d(2) q1 by simp
    have lm: "length m' = length m" using d(5) by (simp add: e_def)
    have "skipEvent m (8 + 0) = Some start" using ev1(1) q1 by simp
    then have a: "skipEvent m' 8 = Some start" "eventAt m' 8 = Some ev1"
      using skipEvent_agree [of m 8 start m'] eventAt_shift [of m 8 0 start m'] lm keep ev1(3)
      by simp_all
    have "walkEvents m e k' (start + len) = Some w" using ev2(2) q2 sl by simp
    then have "eventsFrom m' k' start = eventsFrom m k' (start + len)"
      using lenmod lm shift by (rule eventsFrom_shift)
    then have "eventsFrom m' (Suc k') 8 = ev1 # eventsFrom m k' q2"
      using a q2 sl by simp
    then show ?thesis using True ev1(4) ev2(3) by (cases ev1; cases ev2) (simp add: k')
  qed
  show ?thesis
    apply (rule exI [of _ start], rule exI [of _ nxt], rule exI [of _ m'])
    using d(1,2,4,6) keep tail
    unfolding q' q0 m_def [symmetric]
    by (simp only: simp_thms if_True if_False split: if_splits)
qed

lemma queue_inv_same_region:
  "mem s' = mem s \<Longrightarrow> retainedBufferSize s' = retainedBufferSize s \<Longrightarrow>
     nextFree s' = nextFree s \<Longrightarrow> queue_inv s' = queue_inv s"
  unfolding queue_inv_def by (simp only:)

subsection \<open>The constructor\<close>

text \<open>The header the constructor writes when it resets the region.\<close>

lemma reset_header:
  fixes buf :: "byte list" and sz :: "16 word"
  assumes "8 \<le> length buf"
  defines "m' \<equiv> set_numEvents (set_size (set_magic buf RETAINED_BUF_HEADER_MAGIC) sz) 0"
  shows "hdr_magic m' = RETAINED_BUF_HEADER_MAGIC" and "hdr_size m' = sz"
    and "hdr_numEvents m' = 0" and "length m' = length buf" and "drop 8 m' = drop 8 buf"
proof -
  define m1 where "m1 = set_magic buf RETAINED_BUF_HEADER_MAGIC"
  define m2 where "m2 = set_size m1 sz"
  have m': "m' = set_numEvents m2 0" by (simp add: m'_def m2_def m1_def)
  have l: "length m1 = length buf" "length m2 = length buf" "length m' = length buf"
    by (simp_all add: m' m2_def m1_def set_size_def set_magic_def)
  have a1: "hdr_magic m1 = RETAINED_BUF_HEADER_MAGIC"
    using assms(1) by (simp add: m1_def hdr_magic_def set_magic_def rd32_wr32_same)
  have a2: "hdr_size m2 = sz"
    using assms(1) l by (simp add: m2_def hdr_size_def set_size_def rd16_wr16_same)
  have n2: "m2 ! i = m1 ! i" if "i \<noteq> 4" "i \<noteq> 5" for i
    using that by (simp add: m2_def set_size_def nth_wr16_other)
  have n3: "m' ! i = m2 ! i" if "i \<noteq> 6" "i \<noteq> 7" for i
    using that by (simp add: m' nth_set_numEvents)
  have n1: "m1 ! i = buf ! i" if "4 \<le> i" for i
    using that by (simp add: m1_def set_magic_def nth_wr32_other)
  have "hdr_magic m2 = hdr_magic m1"
    using n2 by (intro rd32_agree [of 0 m2 m1, folded hdr_magic_def]) simp
  moreover have "hdr_magic m' = hdr_magic m2"
    using n3 by (intro rd32_agree [of 0 m' m2, folded hdr_magic_def]) simp
  ultimately show "hdr_magic m' = RETAINED_BUF_HEADER_MAGIC" using a1 by simp
  have "hdr_size m' = hdr_size m2"
    using n3 by (simp add: hdr_size_def rd16_def)
  then show "hdr_size m' = sz" using a2 by simp
  show "hdr_numEvents m' = 0"
    using assms(1) l by (simp add: m' hdr_numEvents_set)
  show "length m' = length buf" by (rule l)
  show "drop 8 m' = drop 8 buf"
  proof (rule nth_equalityI)
    show "length (drop 8 m') = length (drop 8 buf)" using l by simp
    fix i assume "i < length (drop 8 m')"
    then have "8 + i < length buf" using l by simp
    then show "drop 8 m' ! i = drop 8 buf ! i"
      using l n1 [of "8 + i"] n2 [of "8 + i"] n3 [of "8 + i"] by simp
  qed
qed

text \<open>What the constructor returns, in both of its cases.\<close>

lemma construct_cases:
  assumes "8 \<le> unat sz"
  shows "construct buf sz members =
     (case (if hdr_magic buf = RETAINED_BUF_HEADER_MAGIC \<and> hdr_size buf = sz
            then walkEvents buf (unat sz) (unat (hdr_numEvents buf)) 8 else None) of
        Some nf \<Rightarrow> Inr (members\<lparr>mem := buf, retainedBufferSize := sz, nextFree := nf\<rparr>)
      | None \<Rightarrow>
          Inr (members\<lparr>mem := set_numEvents
                                 (set_size (set_magic buf RETAINED_BUF_HEADER_MAGIC) sz) 0,
                       retainedBufferSize := sz, nextFree := 8\<rparr>))"
  unfolding construct_def sizeof_RetainedBufHeader_def using assms by simp

lemma construct_inv:
  assumes "length buf = unat sz" and "construct buf sz members = Inr s"
  shows "queue_inv s"
proof -
  have sz: "8 \<le> unat sz"
    using assms(2) by (auto simp: construct_def sizeof_RetainedBufHeader_def split: if_splits)
  show ?thesis
  proof (cases "if hdr_magic buf = RETAINED_BUF_HEADER_MAGIC \<and> hdr_size buf = sz
                then walkEvents buf (unat sz) (unat (hdr_numEvents buf)) 8 else None")
    case None
    define m' where "m' = set_numEvents (set_size (set_magic buf RETAINED_BUF_HEADER_MAGIC) sz) 0"
    have s: "s = members\<lparr>mem := m', retainedBufferSize := sz, nextFree := 8\<rparr>"
      using assms(2) None unfolding construct_cases [OF sz] m'_def by simp
    have "hdr_numEvents m' = 0" "length m' = length buf"
      using reset_header [of buf sz] sz assms(1) unfolding m'_def by simp_all
    then show ?thesis
      using sz assms(1) by (simp add: s queue_inv_def sizeof_RetainedBufHeader_def)
  next
    case (Some nf)
    then have w: "walkEvents buf (unat sz) (unat (hdr_numEvents buf)) 8 = Some nf"
      by (simp split: if_splits)
    have s: "s = members\<lparr>mem := buf, retainedBufferSize := sz, nextFree := nf\<rparr>"
      using assms(2) Some unfolding construct_cases [OF sz] by simp
    have b: "8 + 4 * unat (hdr_numEvents buf) \<le> nf" "nf mod 4 = 0"
        "0 < unat (hdr_numEvents buf) \<longrightarrow> nf \<le> unat sz"
      using walkEvents_bounds [OF w] by simp_all
    have "nf \<le> unat sz"
    proof (cases "unat (hdr_numEvents buf)")
      case 0
      then show ?thesis using w sz by simp
    next
      case (Suc k)
      then show ?thesis using b(3) by simp
    qed
    then show ?thesis
      using sz assms(1) w b(2) by (simp add: s queue_inv_def sizeof_RetainedBufHeader_def)
  qed
qed

subsection \<open>Reachable states\<close>

text \<open>Every public operation keeps the invariant and the fixed header fields.\<close>

lemma exec_inv:
  assumes "queue_inv s" and "recordFits c"
  shows "\<exists>r s'. exec c s = Inr (r, s') \<and> queue_inv s' \<and>
           hdr_magic (mem s') = hdr_magic (mem s) \<and>
           hdr_size (mem s') = hdr_size (mem s) \<and>
           retainedBufferSize s' = retainedBufferSize s"
proof (cases c)
  case (Publish hostName port path body eventName data)
  then show ?thesis using publish_inv [OF assms(1)] assms(2) by simp
next
  case ClearEvents
  show ?thesis
  proof (cases "isSending s")
    case True
    then show ?thesis using ClearEvents assms(1)
      by (intro exI [of _ False] exI [of _ s]) (simp add: clearEvents_def)
  next
    case False
    define m' where "m' = set_numEvents (mem s) 0"
    have len: "8 \<le> length (mem s)"
      using assms(1) by (simp add: queue_inv_def sizeof_RetainedBufHeader_def)
    have "hdr_numEvents m' = 0" using len by (simp add: m'_def hdr_numEvents_set)
    then have "queue_inv (s\<lparr>mem := m'\<rparr>)"
      using assms(1) queue_inv_cursor(1) [OF assms(1)]
      by (simp add: queue_inv_def m'_def sizeof_RetainedBufHeader_def)
    moreover have "hdr_magic m' = hdr_magic (mem s)" "hdr_size m' = hdr_size (mem s)"
      by (auto simp: m'_def nth_set_numEvents intro!: hdr_fixed_agree)
    ultimately show ?thesis
      using ClearEvents False
      by (intro exI [of _ True] exI [of _ "s\<lparr>mem := m'\<rparr>"]) (simp add: clearEvents_def m'_def)
  qed
next
  case (DiscardOldEvent secondEvent)
  then show ?thesis using discardOldEvent_inv [OF assms(1)] by simp
qed

text \<open>So does a pass of the drain loop.\<close>

lemma tick_inv:
  assumes "queue_inv s"
  shows "\<exists>s'. tick ready now status now' s = Inr s' \<and> queue_inv s' \<and>
           hdr_magic (mem s') = hdr_magic (mem s) \<and>
           hdr_size (mem s') = hdr_size (mem s) \<and>
           retainedBufferSize s' = retainedBufferSize s"
proof (cases "stateHandler s")
  case StartState
  then show ?thesis
    using assms queue_inv_same_region [of "startState s" s]
    by (simp add: tick_def startState_def)
next
  case WaitRetryState
  then show ?thesis
    using assms queue_inv_same_region [of "waitRetryState now s" s]
    by (simp add: tick_def waitRetryState_def)
next
  case CheckQueueState
  show ?thesis
  proof (cases "hdr_numEvents (mem s) > 0 \<and> ready \<and> now - lastPublish s \<ge> 1010")
    case False
    then show ?thesis using assms CheckQueueState
      by (auto simp: tick_def checkQueueState_def)
  next
    case attempt: True
    define s1 where "s1 = s\<lparr>isSending := True\<rparr>"
    have inv1: "queue_inv s1"
      using assms queue_inv_same_region [of s1 s] by (simp add: s1_def)
    show ?thesis
    proof (cases "200 \<le> status \<and> status < 300")
      case False
      define s' where "s' = s1\<lparr>stateHandler := WaitRetryState, isSending := False,
                               lastPublish := now'\<rparr>"
      have "tick ready now status now' s = Inr s'"
        using CheckQueueState attempt False
        by (auto simp: tick_def checkQueueState_def Let_def s'_def s1_def)
      moreover have "queue_inv s'"
        using inv1 queue_inv_same_region [of s' s1] by (simp add: s'_def)
      ultimately show ?thesis by (intro exI [of _ s']) (simp add: s'_def s1_def)
    next
      case True
      obtain r s2 where d: "discardOldEvent False s1 = Inr (r, s2)" "queue_inv s2"
          "hdr_magic (mem s2) = hdr_magic (mem s1)" "hdr_size (mem s2) = hdr_size (mem s1)"
          "retainedBufferSize s2 = retainedBufferSize s1"
        using discardOldEvent_inv [OF inv1] by blast
      define s' where "s' = s2\<lparr>isSending := False, lastPublish := now'\<rparr>"
      have "tick ready now status now' s = Inr s'"
        using CheckQueueState attempt True d(1)
        by (simp add: tick_def checkQueueState_def s1_def [symmetric] s'_def)
      moreover have "queue_inv s'"
        using d(2) queue_inv_same_region [of s' s2] by (simp add: s'_def)
      ultimately show ?thesis
        using d(3,4,5) by (intro exI [of _ s']) (simp add: s'_def s1_def)
    qed
  qed
qed

text \<open>The constructor leaves a valid header.\<close>

lemma construct_header:
  assumes "length buf = unat sz" and "construct buf sz members = Inr s"
  shows "hdr_magic (mem s) = RETAINED_BUF_HEADER_MAGIC" and "hdr_size (mem s) = sz"
    and "retainedBufferSize s = sz"
proof -
  have sz: "8 \<le> unat sz"
    using assms(2) by (auto simp: construct_def sizeof_RetainedBufHeader_def split: if_splits)
  have "hdr_magic (mem s) = RETAINED_BUF_HEADER_MAGIC \<and> hdr_size (mem s) = sz \<and>
        retainedBufferSize s = sz"
  proof (cases "if hdr_magic buf = RETAINED_BUF_HEADER_MAGIC \<and> hdr_size buf = sz
                then walkEvents buf (unat sz) (unat (hdr_numEvents buf)) 8 else None")
    case None
    define m' where "m' = set_numEvents (set_size (set_magic buf RETAINED_BUF_HEADER_MAGIC) sz) 0"
    have s: "s = members\<lparr>mem := m', retainedBufferSize := sz, nextFree := 8\<rparr>"
      using assms(2) None unfolding construct_cases [OF sz] m'_def by simp
    have "hdr_magic m' = RETAINED_BUF_HEADER_MAGIC" "hdr_size m' = sz"
      using reset_header [of buf sz] sz assms(1) unfolding m'_def by simp_all
    then show ?thesis by (simp add: s)
  next
    case (Some nf)
    then have w: "hdr_magic buf = RETAINED_BUF_HEADER_MAGIC" "hdr_size buf = sz"
      by (simp_all split: if_splits)
    have s: "s = members\<lparr>mem := buf, retainedBufferSize := sz, nextFree := nf\<rparr>"
      using assms(2) Some unfolding construct_cases [OF sz] by simp
    show ?thesis using w by (simp add: s)
  qed
  then show "hdr_magic (mem s) = RETAINED_BUF_HEADER_MAGIC" "hdr_size (mem s) = sz"
    "retainedBufferSize s = sz" by simp_all
qed

text \<open>Every reachable state satisfies the invariant and has a valid header.\<close>

lemma reachable_inv:
  assumes "reachable s"
  shows "queue_inv s \<and> hdr_magic (mem s) = RETAINED_BUF_HEADER_MAGIC \<and>
         hdr_size (mem s) = retainedBufferSize s"
  using assms
proof (induction rule: reachable.induct)
  case (constructed buf sz members s)
  then show ?case using construct_inv construct_header by metis
next
  case (operation s c r s')
  then show ?case using exec_inv [of s c] by auto
next
  case (drain s ready now status now' s')
  then show ?case using tick_inv [of s ready now status now'] by auto
next
  case (sending s b)
  then show ?case
    using queue_inv_same_region [of "s\<lparr>isSending := b\<rparr>" s] by simp
qed

text \<open>
  The stored strings fit the computed size whenever they are no longer, together, than
  the three arguments (for instance the host name and the path followed by the body).
\<close>

lemma recordFits_stored_from_arguments:
  assumes "strlen eventName + strlen (case data of None \<Rightarrow> [] | Some d \<Rightarrow> d)
             \<le> strlen hostName + strlen path + strlen body + 1"
    and "strlen hostName + strlen path + strlen body < 2 ^ 31"
  shows "recordFits (Publish hostName port path body eventName data)"
proof -
  define n where "n = sizeof_EventData + strlen hostName + strlen path + strlen body + 3"
  define r :: nat where "r = 2 ^ 32"
  have n: "n + 4 < r" using assms(2) by (simp add: n_def r_def sizeof_EventData_def)
  then have nm: "n mod r = n" by simp
  have "n + (4 - n mod 4) < r" using n by simp
  then have am: "(n + (4 - n mod 4)) mod r = n + (4 - n mod 4)" by simp
  have "eventSize hostName path body = (if n mod 4 \<noteq> 0 then n + (4 - n mod 4) else n)"
    unfolding eventSize_def Let_def n_def [symmetric] r_def [symmetric] nm am by simp
  moreover have "n \<le> n + (4 - n mod 4)" by simp
  ultimately have "n \<le> eventSize hostName path body" by presburger
  then show ?thesis
    using assms(1) by (simp add: n_def sizeof_EventData_def)
qed

lemma eventsFrom_snoc:
  "walkEvents m e k p = Some w \<Longrightarrow> skipEvent m w = Some q \<Longrightarrow> eventAt m w = Some ev \<Longrightarrow>
     eventsFrom m (Suc k) p = eventsFrom m k p @ [ev]"
proof (induction k arbitrary: p)
  case 0
  then show ?case by simp
next
  case (Suc k)
  then obtain r where r: "skipEvent m p = Some r" "r \<le> e" "walkEvents m e k r = Some w"
    by (auto split: option.splits if_splits)
  obtain ev0 where ev0: "eventAt m p = Some ev0" using eventAt_skipEvent [OF r(1)] by blast
  have "eventsFrom m (Suc k) r = eventsFrom m k r @ [ev]"
    using Suc.IH [OF r(3) Suc.prems(2,3)] .
  then show ?case using r(1) ev0 by simp
qed

lemma eventsFrom_agree:
  assumes "walkEvents m e k p = Some w" "length m' = length m"
    and "\<forall>i. p \<le> i \<and> i < w \<longrightarrow> m' ! i = m ! i"
  shows "eventsFrom m' k p = eventsFrom m k p"
  using eventsFrom_shift [of m e k p 0 w m'] assms by simp

subsection \<open>Reading back what publish writes\<close>

lemma oldestEvent_eventAt: "oldestEvent m = eventAt m sizeof_RetainedBufHeader"
  by (simp add: oldestEvent_def eventAt_def Let_def add.assoc)

lemma unat_byte_of_char: "unat (byte_of_char c) = of_char c"
  by (simp add: byte_of_char_def unat_of_nat)

lemma char_of_byte_of_char: "char_of_byte (byte_of_char c) = c"
  by (simp add: char_of_byte_def unat_byte_of_char)

lemma byte_of_char_eq_0_iff: "byte_of_char c = 0 \<longleftrightarrow> c = CHR 0x00"
proof -
  have "byte_of_char c = 0 \<longleftrightarrow> unat (byte_of_char c) = 0" by (simp add: unat_eq_0)
  also have "\<dots> \<longleftrightarrow> (of_char c :: nat) = of_char (CHR 0x00)"
    by (simp add: unat_byte_of_char)
  also have "\<dots> \<longleftrightarrow> c = CHR 0x00" by (rule of_char_eq_iff)
  finally show ?thesis .
qed

lemma c_str_nth_nonzero: "i < strlen s \<Longrightarrow> c_str s ! i \<noteq> CHR 0x00"
proof -
  assume "i < strlen s"
  then have "c_str s ! i \<in> set (takeWhile (\<lambda>c. c \<noteq> CHR 0x00) s)"
    unfolding strlen_def c_str_def by (rule nth_mem)
  then show ?thesis by (metis set_takeWhileD)
qed

text \<open>A string whose bytes and terminator lie in the region is read back as written.\<close>

lemma string_at_written:
  assumes "p + strlen s < length m" and "m ! (p + strlen s) = 0"
    and "\<forall>i < strlen s. m ! (p + i) = byte_of_char (c_str s ! i)"
  shows "strlen_at m p = Some (strlen s)" and "string_at m p = Some (c_str s)"
proof -
  have nz: "\<forall>i < strlen s. m ! (p + i) \<noteq> 0"
    using assms(3) c_str_nth_nonzero by (simp add: byte_of_char_eq_0_iff)
  then show l: "strlen_at m p = Some (strlen s)"
    unfolding strlen_at_Some_iff using assms(1,2) by simp
  have "map char_of_byte (take (strlen s) (drop p m)) = c_str s"
  proof (rule nth_equalityI)
    show "length (map char_of_byte (take (strlen s) (drop p m))) = length (c_str s)"
      using assms(1) by (simp add: strlen_def)
    fix i assume "i < length (map char_of_byte (take (strlen s) (drop p m)))"
    then have i: "i < strlen s" by simp
    then show "map char_of_byte (take (strlen s) (drop p m)) ! i = c_str s ! i"
      using assms(1,3) by (simp add: char_of_byte_of_char)
  qed
  then show "string_at m p = Some (c_str s)" using l by (simp add: string_at_def)
qed

lemma strcpy_at_bytes:
  assumes "strcpy_at m p s = Inr m'"
  shows "length m' = length m" and "p + strlen s < length m" and "m' ! (p + strlen s) = 0"
    and "\<forall>i < strlen s. m' ! (p + i) = byte_of_char (c_str s ! i)"
    and "\<forall>i<p. m' ! i = m ! i"
proof -
  define bs where "bs = map byte_of_char (c_str s) @ [0]"
  have lb: "length bs = strlen s + 1" by (simp add: bs_def strlen_def)
  have fit: "p + length bs \<le> length m" and m': "m' = take p m @ bs @ drop (p + length bs) m"
    using assms by (auto simp: strcpy_at_def Let_def bs_def [symmetric] split: if_splits)
  show "length m' = length m" using fit by (simp add: m')
  show "p + strlen s < length m" using fit lb by simp
  show "m' ! (p + strlen s) = 0"
    using fit by (simp add: m' nth_append bs_def strlen_def)
  show "\<forall>i < strlen s. m' ! (p + i) = byte_of_char (c_str s ! i)"
    using fit lb by (simp add: m' nth_append bs_def strlen_def)
  show "\<forall>i<p. m' ! i = m ! i"
    using fit by (simp add: m' nth_append)
qed

text \<open>The record \<open>publish\<close> writes is the record the walk reads at that offset.\<close>

lemma writeEvent_read_back:
  assumes "writeEvent m p port en d = Inr m'"
  shows "length m' = length m"
    and "eventAt m' p = Some (port, c_str en, c_str d)"
    and "skipEvent m' p = Some (align4 (p + 2 + strlen en + 1 + strlen d + 1))"
    and "\<forall>i<p. m' ! i = m ! i"
proof -
  define m0 where "m0 = wr16 m p port"
  obtain m1 where w: "p + 2 \<le> length m" "strcpy_at m0 (p + 2) en = Inr m1"
      "strcpy_at m1 (p + 2 + strlen en + 1) d = Inr m'"
    using assms
    by (auto simp: writeEvent_def sizeof_EventData_def m0_def split: if_splits sum.splits)
  note a = strcpy_at_bytes [OF w(2)]
  note b = strcpy_at_bytes [OF w(3)]
  show len: "length m' = length m" using a(1) b(1) by (simp add: m0_def)
  have port: "rd16 m' p = port"
  proof -
    have "m' ! p = m0 ! p" "m' ! (p + 1) = m0 ! (p + 1)" using a(5) b(5) by simp_all
    then have "rd16 m' p = rd16 m0 p" by (rule rd16_agree)
    then show ?thesis using w(1) by (simp add: m0_def rd16_wr16_same)
  qed
  have s1: "strlen_at m' (p + 2) = Some (strlen en)" "string_at m' (p + 2) = Some (c_str en)"
  proof -
    have "p + 2 + strlen en < length m'" using a(1,2) b(1) by simp
    moreover have "m' ! (p + 2 + strlen en) = 0" using a(3) b(5) by simp
    moreover have "\<forall>i < strlen en. m' ! (p + 2 + i) = byte_of_char (c_str en ! i)"
      using a(4) b(5) by simp
    ultimately show "strlen_at m' (p + 2) = Some (strlen en)"
      "string_at m' (p + 2) = Some (c_str en)"
      by (rule string_at_written)+
  qed
  have s2: "strlen_at m' (p + 2 + strlen en + 1) = Some (strlen d)"
      "string_at m' (p + 2 + strlen en + 1) = Some (c_str d)"
    using b(1,2,3,4) by (auto intro: string_at_written)
  show "eventAt m' p = Some (port, c_str en, c_str d)"
    using s1(2) s2(2) port by (simp add: eventAt_def sizeof_EventData_def strlen_def)
  show "skipEvent m' p = Some (align4 (p + 2 + strlen en + 1 + strlen d + 1))"
    unfolding skipEvent_Some_iff using s1(1) s2(1) by blast
  show "\<forall>i<p. m' ! i = m ! i"
    using a(5) b(5) by (simp add: m0_def nth_wr16_other)
qed

text \<open>The only path of \<open>publish\<close> that returns \<open>true\<close> is the write at the cursor.\<close>

lemma publish_True_cases:
  assumes inv: "queue_inv s"
    and pub: "publish hostName port path body eventName data s = Inr (True, s')"
  shows "\<exists>m1. eventSize hostName path body \<le> unat (retainedBufferSize s) - nextFree s \<and>
           writeEvent (mem s) (nextFree s) port eventName
             (case data of None \<Rightarrow> [] | Some d \<Rightarrow> d) = Inr m1 \<and>
           s' = s\<lparr>mem := set_numEvents m1 (hdr_numEvents m1 + 1),
                   nextFree := nextFree s + eventSize hostName path body\<rparr>"
proof -
  note c = queue_inv_cursor [OF inv]
  show ?thesis
    using pub unfolding publish_in_range [OF c(3) c(2)] Let_def
    by (auto split: if_splits sum.splits)
qed

lemma publish_True_effect:
  assumes inv: "queue_inv s"
    and pub: "publish hostName port path body eventName data s = Inr (True, s')"
  defines "dat \<equiv> (case data of None \<Rightarrow> [] | Some d \<Rightarrow> d)"
  shows "eventSize hostName path body \<le> unat (retainedBufferSize s) - nextFree s"
    and "nextFree s' = nextFree s + eventSize hostName path body"
    and "hdr_numEvents (mem s') = hdr_numEvents (mem s) + 1"
    and "length (mem s') = length (mem s)"
    and "\<forall>i. 8 \<le> i \<and> i < nextFree s \<longrightarrow> mem s' ! i = mem s ! i"
    and "eventAt (mem s') (nextFree s) = Some (port, c_str eventName, c_str dat)"
    and "skipEvent (mem s') (nextFree s)
           = Some (align4 (nextFree s + 2 + strlen eventName + 1 + strlen dat + 1))"
proof -
  obtain m1 where m1: "eventSize hostName path body \<le> unat (retainedBufferSize s) - nextFree s"
      "writeEvent (mem s) (nextFree s) port eventName dat = Inr m1"
      "s' = s\<lparr>mem := set_numEvents m1 (hdr_numEvents m1 + 1),
              nextFree := nextFree s + eventSize hostName path body\<rparr>"
    using publish_True_cases [OF inv pub] unfolding dat_def by blast
  note c = queue_inv_cursor [OF inv]
  have len: "8 \<le> length (mem s)"
    using inv by (simp add: queue_inv_def sizeof_RetainedBufHeader_def)
  note r = writeEvent_read_back [OF m1(2)]
  define m' where "m' = set_numEvents m1 (hdr_numEvents m1 + 1)"
  have ms: "mem s' = m'" by (simp add: m1(3) m'_def)
  have lm: "length m' = length m1" by (simp add: m'_def)
  have nth: "m' ! i = m1 ! i" if "8 \<le> i" for i
    using that by (simp add: m'_def nth_set_numEvents)
  have h1: "hdr_numEvents m1 = hdr_numEvents (mem s)"
    using r(4) c(1) by (intro hdr_agree(3)) simp
  show "eventSize hostName path body \<le> unat (retainedBufferSize s) - nextFree s" by fact
  show "nextFree s' = nextFree s + eventSize hostName path body" by (simp add: m1(3))
  show "hdr_numEvents (mem s') = hdr_numEvents (mem s) + 1"
    using len r(1) by (simp add: ms m'_def hdr_numEvents_set h1)
  show "length (mem s') = length (mem s)" using r(1) by (simp add: ms lm)
  show "\<forall>i. 8 \<le> i \<and> i < nextFree s \<longrightarrow> mem s' ! i = mem s ! i"
    using nth r(4) by (simp add: ms)
  have sk: "skipEvent m1 (nextFree s + 0)
              = Some (align4 (nextFree s + 2 + strlen eventName + 1 + strlen dat + 1))"
    using r(3) by simp
  have agree: "\<forall>i. nextFree s \<le> i \<and>
                 i + 0 < align4 (nextFree s + 2 + strlen eventName + 1 + strlen dat + 1)
                 \<longrightarrow> m' ! i = m1 ! (i + 0)"
    using nth c(1) by simp
  show "skipEvent (mem s') (nextFree s)
          = Some (align4 (nextFree s + 2 + strlen eventName + 1 + strlen dat + 1))"
    using skipEvent_shift [OF sk _ lm agree] by (simp add: ms)
  show "eventAt (mem s') (nextFree s) = Some (port, c_str eventName, c_str dat)"
    using eventAt_shift [OF sk lm agree] r(2) by (simp add: ms)
qed

section \<open>The claims\<close>

text \<open>
  Claim C1: a \<open>publish\<close> whose record fits the usable region but not the free space,
  with more than one record stored, evicts old records until the record fits, then writes
  it, advances the cursor, increments the count and returns \<open>true\<close>.

  The code differs.  On the 32-byte region with two 8-byte records and 8 bytes free,
  \<open>publish\<close> of a 16-byte record evicts the oldest record and returns \<open>false\<close> at
  once: the new record is not stored although it now fits the free space.
\<close>

theorem publish_evicts_once_and_fails:
  "\<exists>s'. publish ''host3'' 82 ''/p'' ''q'' ''host3'' (Some ''/pq'') demo2 = Inr (False, s') \<and>
         queued demo2 = [(80, ''a'', ''/x''), (81, ''b'', ''/y'')] \<and>
         queued s' = [(81, ''b'', ''/y'')] \<and>
         eventSize ''host3'' ''/p'' ''q'' = 16 \<and>
         unat (retainedBufferSize s') - nextFree s' = 16"
  by (simp add: eval_defs two_events_def demo2_def members0_def)

text \<open>
  Claim C2: the stored size of a record is the record header plus the name and the
  payload with their terminators, rounded up to a multiple of 4, and \<open>skipEvent\<close>
  advances over a stored record by the same size.

  The code differs.  \<open>publish\<close> of host "ab", path "/", body "x", storing the name
  "ab" and the payload "/x", advances the cursor by 12 (port, three string lengths and
  three terminators, rounded up), while \<open>skipEvent\<close> steps over the record written by
  8 (port, two strings and two terminators, rounded up).
\<close>

theorem publish_size_differs_from_skipEvent:
  "\<exists>s'. publish ''ab'' 80 ''/'' ''x'' ''ab'' (Some ''/x'') demo0 = Inr (True, s') \<and>
         eventSize ''ab'' ''/'' ''x'' = 12 \<and>
         nextFree s' = nextFree demo0 + 12 \<and>
         skipEvent (mem s') (nextFree demo0) = Some (nextFree demo0 + 8)"
  by (simp add: eval_defs no_events_def demo0_def members0_def)

text \<open>
  Claim C3: \<open>clearEvents\<close> resets the record count to zero and the cursor to the start
  of the record area if and only if no send is in flight; otherwise it returns
  \<open>false\<close> and changes nothing.

  The code differs.  \<open>clearEvents\<close> never moves the cursor: when no send is in flight
  it zeroes \<open>numEvents\<close> and leaves \<open>nextFree\<close> where it was.
\<close>

theorem clearEvents_keeps_nextFree:
  "nextFree (snd (clearEvents s)) = nextFree s"
  by (simp add: clearEvents_def)

text \<open>
  Claim C4: for enqueue calls whose total padded size stays within the usable capacity,
  removing records from the front one by one yields the enqueued fields in the order of
  the calls.

  The code differs.  On the empty 32-byte region, two records of 12 bytes each (24 bytes
  usable) are both accepted.  The first is read back; after it is removed, the record at
  the front is not the second one enqueued (81, "cd", "/y") but (0, "", "").
\<close>

theorem fifo_roundtrip_fails:
  "\<exists>s1 s2 s3.
     eventSize ''ab'' ''/'' ''x'' + eventSize ''cd'' ''/'' ''y''
       \<le> unat (retainedBufferSize demo0) - sizeof_RetainedBufHeader \<and>
     publish ''ab'' 80 ''/'' ''x'' ''ab'' (Some ''/x'') demo0 = Inr (True, s1) \<and>
     publish ''cd'' 81 ''/'' ''y'' ''cd'' (Some ''/y'') s1 = Inr (True, s2) \<and>
     oldestEvent (mem s2) = Some (80, ''ab'', ''/x'') \<and>
     discardOldEvent False s2 = Inr (True, s3) \<and>
     oldestEvent (mem s3) = Some (0, [], [])"
  by (simp add: eval_defs no_events_def demo0_def members0_def)

text \<open>
  Claim C5.  A drain-loop pass in \<open>CheckQueueState\<close> that performs a transport
  attempt (a record is queued, the network is ready, at least 1010 ms since
  \<open>lastPublish\<close>): with a status in [200, 300) exactly the oldest record is removed and
  the handler stays \<open>CheckQueueState\<close>; with any other status the region and the
  cursor are untouched and the handler becomes \<open>WaitRetryState\<close>.  Either way
  \<open>isSending\<close> is cleared and \<open>lastPublish\<close> is the time read after the attempt.
\<close>

theorem checkQueue_attempt_outcome:
  assumes "queue_inv s" and "stateHandler s = CheckQueueState"
    and "hdr_numEvents (mem s) > 0" and "ready" and "now - lastPublish s \<ge> 1010"
  shows "\<exists>s'. tick ready now status now' s = Inr s' \<and>
           isSending s' = False \<and> lastPublish s' = now' \<and>
           (if 200 \<le> status \<and> status < 300
            then (\<exists>first rest. queued s = first # rest \<and> queued s' = rest) \<and>
                 hdr_numEvents (mem s') = hdr_numEvents (mem s) - 1 \<and>
                 stateHandler s' = CheckQueueState
            else mem s' = mem s \<and> nextFree s' = nextFree s \<and> queued s' = queued s \<and>
                 stateHandler s' = WaitRetryState)"
proof (cases "200 \<le> status \<and> status < 300")
  case False
  define s' where "s' = s\<lparr>isSending := False, lastPublish := now',
                           stateHandler := WaitRetryState\<rparr>"
  have "tick ready now status now' s = Inr s'"
    using assms(2-5) False by (auto simp: tick_def checkQueueState_def Let_def s'_def)
  moreover have "mem s' = mem s" "nextFree s' = nextFree s" "queued s' = queued s"
      "stateHandler s' = WaitRetryState" "isSending s' = False" "lastPublish s' = now'"
    by (simp_all add: s'_def queued_def)
  ultimately show ?thesis using False by (intro exI [of _ s']) simp
next
  case True
  define s1 where "s1 = s\<lparr>isSending := True\<rparr>"
  have inv1: "queue_inv s1"
    using assms(1) queue_inv_same_region [of s1 s] by (simp add: s1_def)
  have "0 < unat (hdr_numEvents (mem s))" using assms(3) by (simp add: word_less_nat_alt)
  then have n: "if False then 2 \<le> unat (hdr_numEvents (mem s1))
                else 1 \<le> unat (hdr_numEvents (mem s1))"
    by (simp add: s1_def)
  obtain nxt m' first rest where d:
      "discardOldEvent False s1
         = Inr (True, s1\<lparr>mem := m', nextFree := nextFree s1 - (nxt - 8)\<rparr>)"
      "hdr_numEvents m' = hdr_numEvents (mem s1) - 1"
      "queued s1 = first # rest"
      "queued (s1\<lparr>mem := m', nextFree := nextFree s1 - (nxt - 8)\<rparr>) = rest"
    using discardOldEvent_queued [OF inv1 n] by (auto simp only: if_False)
  define s' where "s' = s1\<lparr>mem := m', nextFree := nextFree s1 - (nxt - 8),
                            isSending := False, lastPublish := now'\<rparr>"
  have "tick ready now status now' s = Inr s'"
    using assms(2-5) True d(1)
    by (simp add: tick_def checkQueueState_def s1_def [symmetric] s'_def)
  moreover have "queued s = first # rest" "queued s' = rest"
    using d(3,4) by (simp_all add: queued_def s1_def s'_def)
  moreover have "hdr_numEvents (mem s') = hdr_numEvents (mem s) - 1"
    using d(2) by (simp add: s1_def s'_def)
  moreover have "stateHandler s' = CheckQueueState" "isSending s' = False" "lastPublish s' = now'"
    using assms(2) by (simp_all add: s1_def s'_def)
  ultimately show ?thesis using True by (intro exI [of _ s']) (cases first, simp)
qed

theorem checkQueue_attempt_outcome_witness:
  "queue_inv demo2c \<and> stateHandler demo2c = CheckQueueState \<and>
   hdr_numEvents (mem demo2c) > 0 \<and> (5000 :: 32 word) - lastPublish demo2c \<ge> 1010 \<and>
   (\<exists>s'. tick True 5000 200 5200 demo2c = Inr s' \<and>
           isSending s' = False \<and> lastPublish s' = 5200 \<and>
           queued demo2c = [(80, ''a'', ''/x''), (81, ''b'', ''/y'')] \<and>
           queued s' = [(81, ''b'', ''/y'')] \<and>
           hdr_numEvents (mem s') = 1 \<and>
           stateHandler s' = CheckQueueState) \<and>
   (\<exists>s'. tick True 5000 503 5200 demo2c = Inr s' \<and>
           isSending s' = False \<and> lastPublish s' = 5200 \<and>
           mem s' = mem demo2c \<and> nextFree s' = nextFree demo2c \<and>
           stateHandler s' = WaitRetryState)"
proof -
  have a: "queue_inv demo2c"
    by (simp add: eval_defs two_events_def demo2c_def demo2_def members0_def)
  have b: "stateHandler demo2c = CheckQueueState" by (simp add: demo2c_def)
  have c: "hdr_numEvents (mem demo2c) > 0"
    by (simp add: eval_defs two_events_def demo2c_def demo2_def members0_def)
  have d: "(5000 :: 32 word) - lastPublish demo2c \<ge> 1010"
    by (simp add: demo2c_def demo2_def members0_def)
  have q: "queued demo2c = [(80, ''a'', ''/x''), (81, ''b'', ''/y'')]"
      "hdr_numEvents (mem demo2c) = 2"
    by (simp_all add: eval_defs two_events_def demo2c_def demo2_def members0_def)
  show ?thesis
    using a b c d q checkQueue_attempt_outcome [OF a b c TrueI d, of 200 5200]
      checkQueue_attempt_outcome [OF a b c TrueI d, of 503 5200]
    by auto
qed

text \<open>
  Claim C6.  In a state with at least two records and \<open>isSending\<close> set, the eviction
  \<open>discardOldEvent(isSending)\<close> removes the second-oldest record and keeps the oldest:
  the queue \<open>first, second, rest\<close> becomes \<open>first, rest\<close>, the count drops by one,
  and every byte of the first record (offsets from the header end up to the start of the
  second record) is as before.  This is the state in which \<open>publish\<close> returns whenever
  it needs room for a record that could fit the region.
\<close>

theorem eviction_while_sending_removes_second:
  assumes "queue_inv s" and "isSending s" and "2 \<le> unat (hdr_numEvents (mem s))"
  shows "\<exists>s' start first second rest.
           discardOldEvent (isSending s) s = Inr (True, s') \<and>
           queued s = first # second # rest \<and>
           queued s' = first # rest \<and>
           hdr_numEvents (mem s') = hdr_numEvents (mem s) - 1 \<and>
           skipEvent (mem s) sizeof_RetainedBufHeader = Some start \<and>
           (\<forall>i. sizeof_RetainedBufHeader \<le> i \<and> i < start \<longrightarrow> mem s' ! i = mem s ! i) \<and>
           (\<forall>hostName port path body eventName data.
              eventSize hostName path body
                \<le> unat (retainedBufferSize s) - sizeof_RetainedBufHeader \<and>
              unat (retainedBufferSize s) - nextFree s < eventSize hostName path body
              \<longrightarrow> publish hostName port path body eventName data s = Inr (False, s'))"
proof -
  have n: "if True then 2 \<le> unat (hdr_numEvents (mem s)) else 1 \<le> unat (hdr_numEvents (mem s))"
    using assms(3) by simp
  obtain start nxt m' first second rest where d:
      "skipEvent (mem s) 8 = Some start"
      "discardOldEvent True s
         = Inr (True, s\<lparr>mem := m', nextFree := nextFree s - (nxt - start)\<rparr>)"
      "hdr_numEvents m' = hdr_numEvents (mem s) - 1"
      "\<forall>i. 8 \<le> i \<and> i < start \<longrightarrow> m' ! i = mem s ! i"
      "queued s = first # second # rest"
      "queued (s\<lparr>mem := m', nextFree := nextFree s - (nxt - start)\<rparr>) = first # rest"
    using discardOldEvent_queued [OF assms(1) n] by (auto simp only: if_True)
  define s' where "s' = s\<lparr>mem := m', nextFree := nextFree s - (nxt - start)\<rparr>"
  note c = queue_inv_cursor [OF assms(1)]
  have n1: "hdr_numEvents (mem s) \<noteq> 1" using assms(3) by auto
  have pub: "publish hostName port path body eventName data s = Inr (False, s')"
    if "eventSize hostName path body \<le> unat (retainedBufferSize s) - sizeof_RetainedBufHeader"
      and "unat (retainedBufferSize s) - nextFree s < eventSize hostName path body"
    for hostName port path body eventName data
    unfolding publish_in_range [OF c(3) c(2)] Let_def
    using that n1 d(2) assms(2) by (simp add: sizeof_RetainedBufHeader_def s'_def)
  show ?thesis
    apply (rule exI [of _ s'])
    apply (rule exI [of _ start], rule exI [of _ first], rule exI [of _ second])
    apply (rule exI [of _ rest])
    using d assms(2) pub by (simp add: sizeof_RetainedBufHeader_def s'_def)
qed

theorem eviction_while_sending_removes_second_witness:
  "queue_inv demo2s \<and> isSending demo2s \<and> 2 \<le> unat (hdr_numEvents (mem demo2s)) \<and>
   eventSize ''host3'' ''/p'' ''q''
     \<le> unat (retainedBufferSize demo2s) - sizeof_RetainedBufHeader \<and>
   unat (retainedBufferSize demo2s) - nextFree demo2s < eventSize ''host3'' ''/p'' ''q'' \<and>
   (\<exists>s' start first second rest.
           discardOldEvent (isSending demo2s) demo2s = Inr (True, s') \<and>
           queued demo2s = first # second # rest \<and>
           queued s' = first # rest \<and>
           hdr_numEvents (mem s') = hdr_numEvents (mem demo2s) - 1 \<and>
           skipEvent (mem demo2s) sizeof_RetainedBufHeader = Some start \<and>
           publish ''host3'' 82 ''/p'' ''q'' ''host3'' (Some ''/pq'') demo2s = Inr (False, s'))"
proof -
  have a: "queue_inv demo2s"
    by (simp add: eval_defs two_events_def demo2s_def demo2_def members0_def)
  have b: "isSending demo2s" by (simp add: demo2s_def)
  have c: "2 \<le> unat (hdr_numEvents (mem demo2s))"
    by (simp add: eval_defs two_events_def demo2s_def demo2_def members0_def)
  have d: "eventSize ''host3'' ''/p'' ''q''
             \<le> unat (retainedBufferSize demo2s) - sizeof_RetainedBufHeader"
      "unat (retainedBufferSize demo2s) - nextFree demo2s < eventSize ''host3'' ''/p'' ''q''"
    by (simp_all add: eval_defs demo2s_def demo2_def members0_def)
  show ?thesis
    using a b c d eviction_while_sending_removes_second [OF a b c] by blast
qed

text \<open>
  Claim C7.  A record whose padded size exceeds the region size minus the header size is
  rejected at once: \<open>publish\<close> returns \<open>false\<close> and the whole object, region
  included, is unchanged, whatever the number of stored records.
\<close>

theorem publish_oversized_rejected:
  assumes "sizeof_RetainedBufHeader \<le> unat (retainedBufferSize s)"
    and "eventSize hostName path body > unat (retainedBufferSize s) - sizeof_RetainedBufHeader"
  shows "publish hostName port path body eventName data s = Inr (False, s)"
proof -
  have "unat (retainedBufferSize s) < 2 ^ LENGTH(16)" by (rule unsigned_less)
  then have lt: "unat (retainedBufferSize s) < 65536" by simp
  have "(int (unat (retainedBufferSize s)) - int sizeof_RetainedBufHeader) mod 2 ^ 32
          = int (unat (retainedBufferSize s) - sizeof_RetainedBufHeader)"
    using assms(1) lt by (rule size_t_diff)
  then show ?thesis
    using assms(2) by (simp add: publish_def Let_def)
qed

theorem publish_oversized_rejected_witness:
  "sizeof_RetainedBufHeader \<le> unat (retainedBufferSize demo2) \<and>
   eventSize ''example.org'' ''/path'' ''body''
     > unat (retainedBufferSize demo2) - sizeof_RetainedBufHeader \<and>
   publish ''example.org'' 80 ''/path'' ''body'' ''example.org'' (Some ''/pathbody'') demo2
     = Inr (False, demo2)"
proof -
  have a: "sizeof_RetainedBufHeader \<le> unat (retainedBufferSize demo2)"
    by (simp add: demo2_def members0_def sizeof_RetainedBufHeader_def)
  have b: "eventSize ''example.org'' ''/path'' ''body''
             > unat (retainedBufferSize demo2) - sizeof_RetainedBufHeader"
    by (simp add: demo2_def members0_def eventSize_def strlen_def c_str_def
          sizeof_EventData_def sizeof_RetainedBufHeader_def)
  show ?thesis
    using a b publish_oversized_rejected [OF a b] by simp
qed

text \<open>
  Claim C8.  With exactly one record stored, a \<open>publish\<close> whose record does not fit in
  the free space after the cursor returns \<open>false\<close> and leaves the object unchanged: the
  stored bytes, the record count and the cursor.
\<close>

theorem publish_single_record_kept:
  assumes "hdr_numEvents (mem s) = 1"
    and "nextFree s \<le> unat (retainedBufferSize s)"
    and "eventSize hostName path body > unat (retainedBufferSize s) - nextFree s"
  shows "publish hostName port path body eventName data s = Inr (False, s)"
proof -
  have "unat (retainedBufferSize s) < 2 ^ LENGTH(16)" by (rule unsigned_less)
  then have lt: "unat (retainedBufferSize s) < 65536" by simp
  have "(int (unat (retainedBufferSize s)) - int (nextFree s)) mod 2 ^ 32
          = int (unat (retainedBufferSize s) - nextFree s)"
    using assms(2) lt by (rule size_t_diff)
  then show ?thesis
    using assms(1,3) by (simp add: publish_def Let_def)
qed

theorem publish_single_record_kept_witness:
  "hdr_numEvents (mem demo1f) = 1 \<and>
   nextFree demo1f \<le> unat (retainedBufferSize demo1f) \<and>
   eventSize ''host2'' ''/path'' ''bd'' = 20 \<and>
   unat (retainedBufferSize demo1f) - sizeof_RetainedBufHeader = 24 \<and>
   unat (retainedBufferSize demo1f) - nextFree demo1f = 16 \<and>
   eventSize ''host2'' ''/path'' ''bd'' > unat (retainedBufferSize demo1f) - nextFree demo1f \<and>
   queued demo1f = [(80, ''a'', ''/x'')] \<and>
   publish ''host2'' 80 ''/path'' ''bd'' ''host2'' (Some ''/pathbd'') demo1f
     = Inr (False, demo1f)"
proof -
  have a: "hdr_numEvents (mem demo1f) = 1"
    by (simp add: eval_defs demo1f_def members0_def one_event_free_def)
  have b: "nextFree demo1f \<le> unat (retainedBufferSize demo1f)"
    by (simp add: demo1f_def members0_def)
  have e: "eventSize ''host2'' ''/path'' ''bd'' = 20"
    by (simp add: eventSize_def strlen_def c_str_def sizeof_EventData_def)
  have f: "unat (retainedBufferSize demo1f) - sizeof_RetainedBufHeader = 24"
      "unat (retainedBufferSize demo1f) - nextFree demo1f = 16"
    by (simp_all add: demo1f_def members0_def sizeof_RetainedBufHeader_def)
  have c: "eventSize ''host2'' ''/path'' ''bd''
             > unat (retainedBufferSize demo1f) - nextFree demo1f"
    using e f by simp
  have q: "queued demo1f = [(80, ''a'', ''/x'')]"
    by (simp add: eval_defs demo1f_def members0_def one_event_free_def)
  show ?thesis
    using a b c e f q publish_single_record_kept [OF a b c] by simp
qed

text \<open>
  Claim C9.  For a region of the given size that can hold the header, whatever its
  bytes, the constructor returns a state (never a fault).  If the magic is wrong, or the
  stored size differs from the region size, or walking the recorded number of records ends
  past the end of the region, the state is the empty valid one: right magic, size equal to
  the region size, no records, cursor at the end of the header, and the bytes after the
  header as they were.  Otherwise the region is kept as it is and the cursor is the offset
  reached by walking the recorded number of records.  In both cases the state satisfies
  the invariant, and constructing again on the resulting region returns the same state.
\<close>

theorem construct_validates_or_resets:
  assumes "length buf = unat sz" and "sizeof_RetainedBufHeader \<le> unat sz"
  shows "\<exists>s. construct buf sz members = Inr s \<and>
           retainedBufferSize s = sz \<and> queue_inv s \<and>
           (if hdr_magic buf = RETAINED_BUF_HEADER_MAGIC \<and> hdr_size buf = sz \<and>
               walkEvents buf (unat sz) (unat (hdr_numEvents buf)) sizeof_RetainedBufHeader \<noteq> None
            then mem s = buf \<and>
                 walkEvents buf (unat sz) (unat (hdr_numEvents buf)) sizeof_RetainedBufHeader
                   = Some (nextFree s)
            else hdr_magic (mem s) = RETAINED_BUF_HEADER_MAGIC \<and>
                 hdr_size (mem s) = sz \<and>
                 hdr_numEvents (mem s) = 0 \<and>
                 nextFree s = sizeof_RetainedBufHeader \<and>
                 drop sizeof_RetainedBufHeader (mem s) = drop sizeof_RetainedBufHeader buf) \<and>
           construct (mem s) sz members = Inr s"
proof -
  have sz: "8 \<le> unat sz" using assms(2) by (simp add: sizeof_RetainedBufHeader_def)
  have len: "8 \<le> length buf" using sz assms(1) by simp
  show ?thesis
  proof (cases "if hdr_magic buf = RETAINED_BUF_HEADER_MAGIC \<and> hdr_size buf = sz
                then walkEvents buf (unat sz) (unat (hdr_numEvents buf)) 8 else None")
    case None
    define m' where "m' = set_numEvents (set_size (set_magic buf RETAINED_BUF_HEADER_MAGIC) sz) 0"
    define s where "s = members\<lparr>mem := m', retainedBufferSize := sz, nextFree := 8\<rparr>"
    have c: "construct buf sz members = Inr s"
      using None unfolding construct_cases [OF sz] m'_def s_def by simp
    have h: "hdr_magic m' = RETAINED_BUF_HEADER_MAGIC" "hdr_size m' = sz"
        "hdr_numEvents m' = 0" "length m' = length buf" "drop 8 m' = drop 8 buf"
      using reset_header [OF len, of sz] unfolding m'_def by simp_all
    have "construct m' sz members = Inr s"
      unfolding construct_cases [OF sz] using h(1,2,3) by (simp add: s_def)
    moreover have "\<not> (hdr_magic buf = RETAINED_BUF_HEADER_MAGIC \<and> hdr_size buf = sz \<and>
               walkEvents buf (unat sz) (unat (hdr_numEvents buf)) sizeof_RetainedBufHeader \<noteq> None)"
      using None by (auto simp: sizeof_RetainedBufHeader_def split: if_splits)
    ultimately show ?thesis
      using c h construct_inv [OF assms(1) c]
      by (intro exI [of _ s]) (simp add: s_def sizeof_RetainedBufHeader_def)
  next
    case (Some nf)
    then have w: "hdr_magic buf = RETAINED_BUF_HEADER_MAGIC" "hdr_size buf = sz"
        "walkEvents buf (unat sz) (unat (hdr_numEvents buf)) 8 = Some nf"
      by (simp_all split: if_splits)
    define s where "s = members\<lparr>mem := buf, retainedBufferSize := sz, nextFree := nf\<rparr>"
    have c: "construct buf sz members = Inr s"
      using Some unfolding construct_cases [OF sz] s_def by simp
    show ?thesis
      using c w construct_inv [OF assms(1) c]
      by (intro exI [of _ s]) (simp add: s_def sizeof_RetainedBufHeader_def)
  qed
qed

theorem construct_validates_or_resets_witness:
  "length two_events = unat (32 :: 16 word) \<and>
   sizeof_RetainedBufHeader \<le> unat (32 :: 16 word) \<and>
   (\<exists>s. construct two_events 32 members0 = Inr s \<and>
           retainedBufferSize s = 32 \<and> queue_inv s \<and>
           mem s = two_events \<and> nextFree s = 24 \<and>
           construct (mem s) 32 members0 = Inr s) \<and>
   length one_event = unat (16 :: 16 word) \<and>
   sizeof_RetainedBufHeader \<le> unat (16 :: 16 word) \<and>
   (\<exists>s. construct (one_event[0 := 0]) 16 members0 = Inr s \<and>
           retainedBufferSize s = 16 \<and> queue_inv s \<and>
           hdr_magic (mem s) = RETAINED_BUF_HEADER_MAGIC \<and>
           hdr_numEvents (mem s) = 0 \<and> nextFree s = sizeof_RetainedBufHeader \<and>
           construct (mem s) 16 members0 = Inr s)"
proof -
  have a: "length two_events = unat (32 :: 16 word)" by (simp add: two_events_def)
  have b: "sizeof_RetainedBufHeader \<le> unat (32 :: 16 word)"
    by (simp add: sizeof_RetainedBufHeader_def)
  have c: "hdr_magic two_events = RETAINED_BUF_HEADER_MAGIC" "hdr_size two_events = 32"
      "walkEvents two_events (unat (32 :: 16 word)) (unat (hdr_numEvents two_events))
         sizeof_RetainedBufHeader = Some 24"
    by (simp_all add: eval_defs two_events_def)
  have a': "length (one_event[0 := 0]) = unat (16 :: 16 word)" by (simp add: one_event_def)
  have b': "sizeof_RetainedBufHeader \<le> unat (16 :: 16 word)"
    by (simp add: sizeof_RetainedBufHeader_def)
  have c': "hdr_magic (one_event[0 := 0]) \<noteq> RETAINED_BUF_HEADER_MAGIC"
    by (simp add: eval_defs one_event_def)
  show ?thesis
    using a b c a' b' c' construct_validates_or_resets [OF a b, of members0]
      construct_validates_or_resets [OF a' b', of members0]
    by auto
qed


section \<open>Further properties of the code\<close>

text \<open>
  In every state reachable after construction by operations whose \<open>publish\<close> calls
  store strings that fit the size they compute (\<open>recordFits\<close>), each of \<open>publish\<close>,
  \<open>clearEvents\<close> and \<open>discardOldEvent\<close> returns without a fault, leaves the
  header's magic and size fields as they were (the magic constant and the region size),
  and keeps the cursor offset between the header size and the region size.
\<close>

theorem public_operations_keep_header_and_cursor:
  assumes "reachable s" and "recordFits c"
  shows "\<exists>r s'. exec c s = Inr (r, s') \<and>
           hdr_magic (mem s') = hdr_magic (mem s) \<and>
           hdr_size (mem s') = hdr_size (mem s) \<and>
           hdr_magic (mem s') = RETAINED_BUF_HEADER_MAGIC \<and>
           hdr_size (mem s') = retainedBufferSize s' \<and>
           retainedBufferSize s' = retainedBufferSize s \<and>
           sizeof_RetainedBufHeader \<le> nextFree s' \<and>
           nextFree s' \<le> unat (retainedBufferSize s')"
proof -
  have inv: "queue_inv s" "hdr_magic (mem s) = RETAINED_BUF_HEADER_MAGIC"
      "hdr_size (mem s) = retainedBufferSize s"
    using reachable_inv [OF assms(1)] by simp_all
  obtain r s' where r: "exec c s = Inr (r, s')" "queue_inv s'"
      "hdr_magic (mem s') = hdr_magic (mem s)" "hdr_size (mem s') = hdr_size (mem s)"
      "retainedBufferSize s' = retainedBufferSize s"
    using exec_inv [OF inv(1) assms(2)] by blast
  have "sizeof_RetainedBufHeader \<le> nextFree s'" "nextFree s' \<le> unat (retainedBufferSize s')"
    using queue_inv_cursor [OF r(2)] by (simp_all add: sizeof_RetainedBufHeader_def)
  then show ?thesis using r inv by (intro exI [of _ r] exI [of _ s']) simp
qed

theorem public_operations_keep_header_and_cursor_witness:
  "reachable demo2 \<and> recordFits (Publish ''h'' 82 ''/'' ''q'' ''h'' (Some ''/q'')) \<and>
   (\<exists>r s'. exec (Publish ''h'' 82 ''/'' ''q'' ''h'' (Some ''/q'')) demo2 = Inr (r, s') \<and>
      hdr_magic (mem s') = hdr_magic (mem demo2) \<and>
      hdr_size (mem s') = hdr_size (mem demo2) \<and>
      sizeof_RetainedBufHeader \<le> nextFree s' \<and>
      nextFree s' \<le> unat (retainedBufferSize s')) \<and>
   (\<exists>r s'. exec ClearEvents demo2 = Inr (r, s') \<and>
      hdr_magic (mem s') = hdr_magic (mem demo2) \<and>
      hdr_size (mem s') = hdr_size (mem demo2) \<and>
      sizeof_RetainedBufHeader \<le> nextFree s' \<and>
      nextFree s' \<le> unat (retainedBufferSize s')) \<and>
   (\<exists>r s'. exec (DiscardOldEvent False) demo2 = Inr (r, s') \<and>
      hdr_magic (mem s') = hdr_magic (mem demo2) \<and>
      hdr_size (mem s') = hdr_size (mem demo2) \<and>
      sizeof_RetainedBufHeader \<le> nextFree s' \<and>
      nextFree s' \<le> unat (retainedBufferSize s'))"
proof -
  have "construct two_events 32 members0 = Inr demo2"
    by (simp add: eval_defs two_events_def demo2_def members0_def)
  moreover have "length two_events = unat (32 :: 16 word)" by (simp add: two_events_def)
  ultimately have a: "reachable demo2" by (rule constructed [rotated])
  have b: "recordFits (Publish ''h'' 82 ''/'' ''q'' ''h'' (Some ''/q''))"
    by (simp add: eventSize_def strlen_def c_str_def sizeof_EventData_def)
  have c: "recordFits ClearEvents" "recordFits (DiscardOldEvent False)" by simp_all
  show ?thesis
    using a b public_operations_keep_header_and_cursor [OF a b]
      public_operations_keep_header_and_cursor [OF a c(1)]
      public_operations_keep_header_and_cursor [OF a c(2)]
    by blast
qed

text \<open>
  A \<open>publish\<close> that returns \<open>true\<close> found room at the cursor without evicting: it
  advanced the cursor by the size computed from its three arguments, incremented the
  record count and left the bytes of the stored records as they were.
\<close>

theorem publish_true_only_when_fits:
  assumes "queue_inv s"
    and "publish hostName port path body eventName data s = Inr (True, s')"
  shows "eventSize hostName path body \<le> unat (retainedBufferSize s) - nextFree s \<and>
         nextFree s' = nextFree s + eventSize hostName path body \<and>
         hdr_numEvents (mem s') = hdr_numEvents (mem s) + 1 \<and>
         (\<forall>i. sizeof_RetainedBufHeader \<le> i \<and> i < nextFree s \<longrightarrow> mem s' ! i = mem s ! i)"
  using publish_True_effect [OF assms] by (simp add: sizeof_RetainedBufHeader_def)

theorem publish_true_only_when_fits_witness:
  "queue_inv demo0 \<and>
   (\<exists>s'. publish ''ab'' 80 ''/'' ''x'' ''ab'' (Some ''/x'') demo0 = Inr (True, s') \<and>
      eventSize ''ab'' ''/'' ''x'' \<le> unat (retainedBufferSize demo0) - nextFree demo0 \<and>
      nextFree s' = nextFree demo0 + eventSize ''ab'' ''/'' ''x'' \<and>
      hdr_numEvents (mem s') = hdr_numEvents (mem demo0) + 1)"
proof -
  have a: "queue_inv demo0"
    by (simp add: eval_defs no_events_def demo0_def members0_def)
  have "\<exists>s'. publish ''ab'' 80 ''/'' ''x'' ''ab'' (Some ''/x'') demo0 = Inr (True, s')"
    by (simp add: eval_defs no_events_def demo0_def members0_def)
  then obtain s' where b: "publish ''ab'' 80 ''/'' ''x'' ''ab'' (Some ''/x'') demo0 = Inr (True, s')"
    by blast
  show ?thesis
    using a b publish_true_only_when_fits [OF a b] by blast
qed

text \<open>
  The record a successful \<open>publish\<close> writes at the cursor is read back there as the
  port and the two stored strings, and \<open>skipEvent\<close> steps over it by the port, the two
  strings and their terminators, rounded up to a multiple of 4.
\<close>

theorem published_record_reads_back:
  assumes "queue_inv s"
    and "publish hostName port path body eventName data s = Inr (True, s')"
  shows "eventAt (mem s') (nextFree s)
           = Some (port, c_str eventName, c_str (case data of None \<Rightarrow> [] | Some d \<Rightarrow> d)) \<and>
         skipEvent (mem s') (nextFree s)
           = Some (align4 (nextFree s + sizeof_EventData + strlen eventName + 1
                             + strlen (case data of None \<Rightarrow> [] | Some d \<Rightarrow> d) + 1))"
  using publish_True_effect(6,7) [OF assms] by (simp add: sizeof_EventData_def)

theorem published_record_reads_back_witness:
  "queue_inv demo0 \<and>
   (\<exists>s'. publish ''ab'' 80 ''/'' ''x'' ''ab'' (Some ''/x'') demo0 = Inr (True, s') \<and>
      eventAt (mem s') (nextFree demo0) = Some (80, ''ab'', ''/x'') \<and>
      skipEvent (mem s') (nextFree demo0) = Some 16)"
proof -
  have a: "queue_inv demo0"
    by (simp add: eval_defs no_events_def demo0_def members0_def)
  have "\<exists>s'. publish ''ab'' 80 ''/'' ''x'' ''ab'' (Some ''/x'') demo0 = Inr (True, s')"
    by (simp add: eval_defs no_events_def demo0_def members0_def)
  then obtain s' where b: "publish ''ab'' 80 ''/'' ''x'' ''ab'' (Some ''/x'') demo0 = Inr (True, s')"
    by blast
  have c: "nextFree demo0 = 8" "c_str ''ab'' = ''ab''" "c_str ''/x'' = ''/x''"
      "align4 (nextFree demo0 + sizeof_EventData + strlen ''ab'' + 1 + strlen ''/x'' + 1) = 16"
    by (simp_all add: demo0_def members0_def c_str_def strlen_def align4_def sizeof_EventData_def)
  show ?thesis
    using a b c published_record_reads_back [OF a b] by auto
qed

text \<open>
  When the cursor is exactly at the end of the stored records and the size computed by
  \<open>publish\<close> equals the padded length of what it writes, a successful \<open>publish\<close>
  appends its record to the queue and leaves the cursor exact again.
\<close>

theorem publish_appends_when_sizes_agree:
  assumes "queue_inv s" and "cursor_exact s"
    and "publish hostName port path body eventName data s = Inr (True, s')"
    and "align4 (sizeof_EventData + strlen eventName + 1
                   + strlen (case data of None \<Rightarrow> [] | Some d \<Rightarrow> d) + 1)
           = eventSize hostName path body"
  shows "queued s' = queued s
           @ [(port, c_str eventName, c_str (case data of None \<Rightarrow> [] | Some d \<Rightarrow> d))] \<and>
         cursor_exact s' \<and> queue_inv s'"
proof -
  define dat where "dat = (case data of None \<Rightarrow> [] | Some d \<Rightarrow> d)"
  define m where "m = mem s"
  define m' where "m' = mem s'"
  define e where "e = length m"
  define k where "k = unat (hdr_numEvents m)"
  define nf where "nf = nextFree s"
  note eff = publish_True_effect [OF assms(1,3), folded dat_def m_def m'_def nf_def]
  have w: "walkEvents m e k 8 = Some nf"
    using assms(2) by (simp add: cursor_exact_def m_def e_def k_def nf_def sizeof_RetainedBufHeader_def)
  have len: "e = unat (retainedBufferSize s)" "nf \<le> e" "nf mod 4 = 0"
    using assms(1) by (simp_all add: queue_inv_def m_def e_def nf_def)
  have lm: "length m' = length m" using eff(4) .
  have keep: "\<forall>i. 8 \<le> i \<and> i < nf \<longrightarrow> m' ! i = m ! i" using eff(5) .
  have sz: "align4 (2 + strlen eventName + 1 + strlen dat + 1) = eventSize hostName path body"
    using assms(4) by (simp add: dat_def sizeof_EventData_def)
  have fits: "recordFits (Publish hostName port path body eventName data)"
    using align4_props [of "2 + strlen eventName + 1 + strlen dat + 1"] sz
    by (simp add: dat_def sizeof_EventData_def)
  have inv': "queue_inv s'"
    using publish_inv [OF assms(1) fits] assms(3) by auto
  \<comment> \<open>the count after the call\<close>
  have "8 + 4 * k \<le> nf" using walkEvents_bounds [OF w] by simp
  moreover have "e < 65536"
  proof -
    have "unat (retainedBufferSize s) < 2 ^ LENGTH(16)" by (rule unsigned_less)
    then show ?thesis by (simp add: len(1))
  qed
  ultimately have "unat (hdr_numEvents m) + unat (1 :: 16 word) < 2 ^ LENGTH(16)"
    using len(2) by (simp add: k_def)
  then have "unat (hdr_numEvents m + 1) = unat (hdr_numEvents m) + unat (1 :: 16 word)"
    by (rule unat_add_lem [THEN iffD1])
  then have k': "unat (hdr_numEvents m') = Suc k" using eff(3) by (simp add: k_def)
  \<comment> \<open>the walk and the records read, before and after\<close>
  have walk_old: "walkEvents m' e k 8 = Some nf"
    using w lm keep by (rule walkEvents_agree)
  have old: "eventsFrom m' k 8 = eventsFrom m k 8"
    using w lm keep by (rule eventsFrom_agree)
  have "align4 (nf + (2 + strlen eventName + 1 + strlen dat + 1))
          = nf + align4 (2 + strlen eventName + 1 + strlen dat + 1)"
    using len(3) align4_shift [of nf "2 + strlen eventName + 1 + strlen dat + 1"]
    by (simp add: add.commute)
  then have sk: "skipEvent m' nf = Some (nf + eventSize hostName path body)"
    using eff(7) sz by (simp add: add.assoc)
  have room: "nf + eventSize hostName path body \<le> e"
    using eff(1) len(1,2) by (simp add: nf_def)
  have "walkEvents m' e (Suc k) 8 = Some (nf + eventSize hostName path body)"
    using walk_old sk room by (rule walkEvents_snoc)
  then have exact: "cursor_exact s'"
    using eff(2) lm by (simp add: cursor_exact_def m'_def [symmetric] k' e_def
        sizeof_RetainedBufHeader_def)
  have "eventsFrom m' (Suc k) 8 = eventsFrom m' k 8 @ [(port, c_str eventName, c_str dat)]"
    using walk_old sk eff(6) by (rule eventsFrom_snoc)
  then have "queued s' = queued s @ [(port, c_str eventName, c_str dat)]"
    using old by (simp add: queued_def m'_def [symmetric] m_def [symmetric] k' k_def [symmetric]
        sizeof_RetainedBufHeader_def)
  then show ?thesis using exact inv' by (simp add: dat_def)
qed

theorem publish_appends_when_sizes_agree_witness:
  "queue_inv demo0 \<and> cursor_exact demo0 \<and>
   align4 (sizeof_EventData + strlen ''a'' + 1 + strlen ''/x'' + 1) = eventSize ''a'' ''/'' ''x'' \<and>
   (\<exists>s'. publish ''a'' 80 ''/'' ''x'' ''a'' (Some ''/x'') demo0 = Inr (True, s') \<and>
      queued demo0 = [] \<and> queued s' = [(80, ''a'', ''/x'')] \<and>
      cursor_exact s' \<and> queue_inv s')"
proof -
  have a: "queue_inv demo0" "cursor_exact demo0" "queued demo0 = []"
    by (simp_all add: eval_defs cursor_exact_def no_events_def demo0_def members0_def)
  have "\<exists>s'. publish ''a'' 80 ''/'' ''x'' ''a'' (Some ''/x'') demo0 = Inr (True, s')"
    by (simp add: eval_defs no_events_def demo0_def members0_def)
  then obtain s' where b: "publish ''a'' 80 ''/'' ''x'' ''a'' (Some ''/x'') demo0 = Inr (True, s')"
    by blast
  have c: "align4 (sizeof_EventData + strlen ''a'' + 1
                     + strlen (case Some ''/x'' of None \<Rightarrow> [] | Some d \<Rightarrow> d) + 1)
             = eventSize ''a'' ''/'' ''x''"
    by (simp add: align4_def eventSize_def strlen_def c_str_def sizeof_EventData_def)
  have d: "c_str ''a'' = ''a''" "c_str ''/x'' = ''/x''" by (simp_all add: c_str_def)
  show ?thesis
    using a b c d publish_appends_when_sizes_agree [OF a(1,2) b c] by auto
qed

text \<open>
  Removing the oldest record from a state whose cursor is exact leaves the rest of the
  queue in order and the cursor exact again.
\<close>

theorem removal_keeps_order:
  assumes "queue_inv s" and "cursor_exact s" and "1 \<le> unat (hdr_numEvents (mem s))"
  shows "\<exists>s' first rest. discardOldEvent False s = Inr (True, s') \<and>
           queued s = first # rest \<and> queued s' = rest \<and>
           cursor_exact s' \<and> queue_inv s'"
proof -
  have n: "if False then 2 \<le> unat (hdr_numEvents (mem s)) else 1 \<le> unat (hdr_numEvents (mem s))"
    using assms(3) by simp
  obtain nxt m' first rest where d:
      "skipEvent (mem s) 8 = Some nxt"
      "discardOldEvent False s
         = Inr (True, s\<lparr>mem := m', nextFree := nextFree s - (nxt - 8)\<rparr>)"
      "queued s = first # rest"
      "queued (s\<lparr>mem := m', nextFree := nextFree s - (nxt - 8)\<rparr>) = rest"
    using discardOldEvent_queued [OF assms(1) n] by (auto simp only: if_False)
  obtain start nxt' m'' where f:
      "start = 8" "skipEvent (mem s) start = Some nxt'"
      "discardOldEvent False s
         = Inr (True, s\<lparr>mem := m'', nextFree := nextFree s - (nxt' - start)\<rparr>)"
      "length m'' = length (mem s)"
      "walkEvents m'' (length m'') (unat (hdr_numEvents m'')) 8
         = map_option (\<lambda>w. w - (nxt' - start))
             (walkEvents (mem s) (length (mem s)) (unat (hdr_numEvents (mem s))) 8)"
    using discardOldEvent_effect [OF assms(1) n] by (auto simp only: if_False)
  define s' where "s' = s\<lparr>mem := m', nextFree := nextFree s - (nxt - 8)\<rparr>"
  have nx: "nxt' = nxt" using d(1) f(1,2) by simp
  have "s\<lparr>mem := m'', nextFree := nextFree s - (nxt' - start)\<rparr>
          = s\<lparr>mem := m', nextFree := nextFree s - (nxt - 8)\<rparr>"
    using d(2) f(3) by simp
  then have "mem (s\<lparr>mem := m'', nextFree := nextFree s - (nxt' - start)\<rparr>)
          = mem (s\<lparr>mem := m', nextFree := nextFree s - (nxt - 8)\<rparr>)"
    by (rule arg_cong)
  then have same: "nxt' = nxt" "m'' = m'" using nx by simp_all
  have "walkEvents m' (length m') (unat (hdr_numEvents m')) 8 = Some (nextFree s - (nxt - 8))"
    using f(5) assms(2) unfolding same f(1)
    by (simp add: cursor_exact_def sizeof_RetainedBufHeader_def)
  then have "cursor_exact s'"
    by (simp add: cursor_exact_def s'_def sizeof_RetainedBufHeader_def)
  moreover have "queue_inv s'"
    using discardOldEvent_inv [OF assms(1), of False] d(2) by (auto simp: s'_def)
  ultimately show ?thesis
    using d(2,3,4) by (intro exI [of _ s'] exI [of _ first] exI [of _ rest]) (simp add: s'_def)
qed

theorem removal_keeps_order_witness:
  "queue_inv demo2 \<and> cursor_exact demo2 \<and> 1 \<le> unat (hdr_numEvents (mem demo2)) \<and>
   (\<exists>s'. discardOldEvent False demo2 = Inr (True, s') \<and>
           queued demo2 = [(80, ''a'', ''/x''), (81, ''b'', ''/y'')] \<and>
           queued s' = [(81, ''b'', ''/y'')] \<and>
           cursor_exact s' \<and> queue_inv s')"
proof -
  have a: "queue_inv demo2" "cursor_exact demo2" "1 \<le> unat (hdr_numEvents (mem demo2))"
      "queued demo2 = [(80, ''a'', ''/x''), (81, ''b'', ''/y'')]"
    by (simp_all add: eval_defs cursor_exact_def two_events_def demo2_def members0_def)
  show ?thesis
    using a removal_keeps_order [OF a(1,2,3)] by auto
qed

end
